theory Spec2Isabelle
  imports Main
begin

chapter \<open>ThunderClerk-AI: the extraction pipeline\<close>

text \<open>
  A shallow embedding of the pure helpers of the extension (\<^verbatim>\<open>extractTextBody\<close>,
  \<^verbatim>\<open>normalizeCalDate\<close>, \<^verbatim>\<open>extractJSON\<close>, \<^verbatim>\<open>isValidHostUrl\<close>) and of the
  post-processing in \<^verbatim>\<open>background.js\<close> (\<^verbatim>\<open>normalizeCalendarData\<close>,
  \<^verbatim>\<open>normalizeTaskData\<close>, \<^verbatim>\<open>callOllama\<close>, \<^verbatim>\<open>handleCalendar\<close>), with the
  properties the specification states about them.
\<close>

section \<open>Values, errors and strings\<close>

text \<open>
  The extension works on the values that \<^verbatim>\<open>JSON.parse\<close> returns and on JavaScript
  strings. A property read of an absent key gives \<^verbatim>\<open>undefined\<close>; it is modelled as
  \<^term>\<open>None\<close>, so a JavaScript value is an optional JSON value. Numbers are restricted
  to integers.

  A JavaScript string is a sequence of UTF-16 code units. The raw text of a model reply
  and the text that \<^verbatim>\<open>JSON.stringify\<close> writes are modelled as lists of code units,
  natural numbers: there the line separators U+2028 and U+2029 and the white space
  beyond U+00FF count. The field names and the date texts of the parsed records are
  modelled as lists of \<^typ>\<open>char\<close>, one \<^typ>\<open>char\<close> per code unit from 0 to 255; the
  functions that read them single out only characters below U+0080.
\<close>

datatype 's json_of =
    JNull
  | JBool bool
  | JNum int
  | JStr 's
  | JArr "'s json_of list"
  | JObj "('s \<times> 's json_of) list"

type_synonym json = "string json_of"

type_synonym ustring = "nat list"

text \<open>A text written with characters, as code units.\<close>

abbreviation units :: "string \<Rightarrow> ustring" where
  "units s \<equiv> map of_char s"

abbreviation lbrace :: nat where
  "lbrace \<equiv> 123"

abbreviation rbrace :: nat where
  "rbrace \<equiv> 125"

abbreviation backquotes :: ustring where
  "backquotes \<equiv> [96, 96, 96]"

text \<open>Every \<^verbatim>\<open>throw\<close> of the source, and the TypeError of a method call on a non-string.\<close>

datatype error =
    TypeError
  | SyntaxError
  | NoJsonFound
  | UnclosedJson
  | InvalidHost string
  | Timeout
  | FetchFailed string
  | UpstreamError nat string

text \<open>JavaScript truthiness, as used by \<^verbatim>\<open>if (x)\<close>, \<^verbatim>\<open>!x\<close> and \<^verbatim>\<open>!!x\<close>.\<close>

fun truthy :: "json option \<Rightarrow> bool" where
  "truthy None = False"
| "truthy (Some JNull) = False"
| "truthy (Some (JBool b)) = b"
| "truthy (Some (JNum n)) = (n \<noteq> 0)"
| "truthy (Some (JStr s)) = (s \<noteq> '''')"
| "truthy (Some (JArr xs)) = True"
| "truthy (Some (JObj kvs)) = True"

definition is_digit :: "char \<Rightarrow> bool" where
  "is_digit c = (c \<in> set ''0123456789'')"

text \<open>
  The line terminators of the language, at which \<^verbatim>\<open>^\<close> and \<^verbatim>\<open>$\<close> hold under the
  \<^verbatim>\<open>m\<close> flag: line feed, carriage return, line separator and paragraph separator.
  The regular expression class \<^verbatim>\<open>\s\<close> and the characters removed by \<^verbatim>\<open>trim\<close> are
  the white space of the language and the line terminators: tab, vertical tab, form
  feed, space, no-break space, the byte order mark, the other space separators of
  Unicode, and the four line terminators.
\<close>

definition is_line_terminator :: "nat \<Rightarrow> bool" where
  "is_line_terminator c = (c = 0x0A \<or> c = 0x0D \<or> c = 0x2028 \<or> c = 0x2029)"

definition is_space :: "nat \<Rightarrow> bool" where
  "is_space c =
     (c \<in> {0x09, 0x0B, 0x0C, 0x20, 0xA0, 0x1680, 0x202F, 0x205F, 0x3000, 0xFEFF}
      \<or> (0x2000 \<le> c \<and> c \<le> 0x200A) \<or> is_line_terminator c)"

text \<open>\<^verbatim>\<open>s.indexOf(c)\<close>, with \<^term>\<open>None\<close> for -1.\<close>

definition indexOf :: "'a \<Rightarrow> 'a list \<Rightarrow> nat option" where
  "indexOf c s = (if c \<in> set s then Some (length (takeWhile (\<lambda>x. x \<noteq> c) s)) else None)"

text \<open>\<^verbatim>\<open>s.padEnd(n, c)\<close> for a one-character filler.\<close>

definition padEnd :: "nat \<Rightarrow> char \<Rightarrow> string \<Rightarrow> string" where
  "padEnd n c s = s @ replicate (n - length s) c"

text \<open>\<^verbatim>\<open>s.trim()\<close>.\<close>

definition trim :: "ustring \<Rightarrow> ustring" where
  "trim s = rev (dropWhile is_space (rev (dropWhile is_space s)))"

section \<open>Message parts: \<^verbatim>\<open>extractTextBody\<close>\<close>

text \<open>
  A message part has an optional content type, an optional body and an optional list of
  child parts; \<^term>\<open>NoPart\<close> stands for \<^verbatim>\<open>null\<close> and \<^verbatim>\<open>undefined\<close>. The loop
  over the children is \<^term>\<open>firstText\<close>.
\<close>

datatype part =
    NoPart
  | Part (contentType: "string option") (body: "string option") (parts: "part list option")

fun extractTextBody :: "part \<Rightarrow> string" and firstText :: "part list \<Rightarrow> string" where
  "extractTextBody NoPart = ''''"
| "extractTextBody (Part ct b ps) =
     (if ct = Some ''text/plain'' \<and> b \<noteq> None \<and> b \<noteq> Some '''' then the b
      else (case ps of None \<Rightarrow> '''' | Some cs \<Rightarrow> firstText cs))"
| "firstText [] = ''''"
| "firstText (child # rest) =
     (let text = extractTextBody child in if text \<noteq> '''' then text else firstText rest)"

text \<open>The parts of a tree in depth-first pre-order, and the parts the search looks for.\<close>

fun preorder :: "part \<Rightarrow> part list" and preorder_list :: "part list \<Rightarrow> part list" where
  "preorder NoPart = []"
| "preorder (Part ct b ps) =
     Part ct b ps # (case ps of None \<Rightarrow> [] | Some cs \<Rightarrow> preorder_list cs)"
| "preorder_list [] = []"
| "preorder_list (c # cs) = preorder c @ preorder_list cs"

fun is_plain_text :: "part \<Rightarrow> bool" where
  "is_plain_text NoPart = False"
| "is_plain_text (Part ct b ps) = (ct = Some ''text/plain'' \<and> b \<noteq> None \<and> b \<noteq> Some '''')"

definition body_of_first :: "part list \<Rightarrow> string" where
  "body_of_first ps = (case find is_plain_text ps of None \<Rightarrow> '''' | Some q \<Rightarrow> the (body q))"

section \<open>Calendar dates: \<^verbatim>\<open>normalizeCalDate\<close>\<close>

text \<open>\<^verbatim>\<open>s.replace(/-/g, "")\<close> and \<^verbatim>\<open>s.replace(/:/g, "")\<close>: every occurrence goes.\<close>

definition remove_all :: "char \<Rightarrow> string \<Rightarrow> string" where
  "remove_all c s = filter (\<lambda>x. x \<noteq> c) s"

text \<open>
  The three anchored replacements search from the left for the first position where the
  pattern matches up to the end of the input, and delete the match:
  \<^verbatim>\<open>/Z$/i\<close>, \<^verbatim>\<open>/[+-]\d{4}$/\<close> and \<^verbatim>\<open>/\.\d+$/\<close>.
\<close>

fun strip_trailing_Z :: "string \<Rightarrow> string" where
  "strip_trailing_Z [] = []"
| "strip_trailing_Z (c # cs) =
     (if (c = CHR ''Z'' \<or> c = CHR ''z'') \<and> cs = [] then []
      else c # strip_trailing_Z cs)"

fun strip_tz_offset :: "string \<Rightarrow> string" where
  "strip_tz_offset [] = []"
| "strip_tz_offset (c # cs) =
     (if (c = CHR ''+'' \<or> c = CHR ''-'') \<and> length cs = 4 \<and> list_all is_digit cs then []
      else c # strip_tz_offset cs)"

fun strip_fraction :: "string \<Rightarrow> string" where
  "strip_fraction [] = []"
| "strip_fraction (c # cs) =
     (if c = CHR ''.'' \<and> cs \<noteq> [] \<and> list_all is_digit cs then []
      else c # strip_fraction cs)"

text \<open>The body of \<^verbatim>\<open>normalizeCalDate\<close> for a non-empty string.\<close>

definition normalizeCalDate_str :: "string \<Rightarrow> string" where
  "normalizeCalDate_str dateStr =
     (let s = strip_fraction (strip_tz_offset (strip_trailing_Z
                (remove_all CHR '':'' (remove_all CHR ''-'' dateStr)))) in
      case indexOf CHR ''T'' s of
        None \<Rightarrow> take 8 s @ ''T000000''
      | Some tIdx \<Rightarrow>
          (let datePart = take 8 (take tIdx s);
               timePart = padEnd 6 CHR ''0'' (take 6 (drop (tIdx + 1) s))
           in datePart @ ''T'' @ timePart))"

text \<open>
  \<^verbatim>\<open>normalizeCalDate\<close> on any value: a falsy value is returned as it is, a string is
  reshaped, and any other truthy value has no \<^verbatim>\<open>replace\<close> method.
\<close>

definition normalizeCalDate :: "json option \<Rightarrow> error + json option" where
  "normalizeCalDate dateStr =
     (if \<not> truthy dateStr then Inr dateStr
      else case dateStr of
             Some (JStr s) \<Rightarrow> Inr (Some (JStr (normalizeCalDate_str s)))
           | _ \<Rightarrow> Inl TypeError)"

subsection \<open>The reference definition of the specification\<close>

text \<open>
  The specification describes the result by what the text ends with: a zone letter, an
  offset of a sign and four digits, a fraction of a second. The characters accepted as
  the zone letter and as the sign of an offset are parameters.
\<close>

definition without :: "string \<Rightarrow> string \<Rightarrow> string" where
  "without cs s = filter (\<lambda>c. c \<notin> set cs) s"

definition ends_with_Z :: "string \<Rightarrow> string \<Rightarrow> bool" where
  "ends_with_Z zs s = (s \<noteq> [] \<and> last s \<in> set zs)"

definition ends_with_offset :: "string \<Rightarrow> string \<Rightarrow> bool" where
  "ends_with_offset signs s =
     (5 \<le> length s \<and> s ! (length s - 5) \<in> set signs
        \<and> list_all is_digit (drop (length s - 4) s))"

definition trailing_digits :: "string \<Rightarrow> nat" where
  "trailing_digits s = length (takeWhile is_digit (rev s))"

definition ends_with_fraction :: "string \<Rightarrow> bool" where
  "ends_with_fraction s =
     (0 < trailing_digits s \<and> trailing_digits s < length s
        \<and> s ! (length s - trailing_digits s - 1) = CHR ''.'')"

definition drop_trailing_Z :: "string \<Rightarrow> string \<Rightarrow> string" where
  "drop_trailing_Z zs s = (if ends_with_Z zs s then butlast s else s)"

definition drop_trailing_offset :: "string \<Rightarrow> string \<Rightarrow> string" where
  "drop_trailing_offset signs s =
     (if ends_with_offset signs s then take (length s - 5) s else s)"

definition drop_trailing_fraction :: "string \<Rightarrow> string" where
  "drop_trailing_fraction s =
     (if ends_with_fraction s then take (length s - trailing_digits s - 1) s else s)"

definition drop_suffixes :: "string \<Rightarrow> string \<Rightarrow> string \<Rightarrow> string" where
  "drop_suffixes zs signs s =
     drop_trailing_fraction (drop_trailing_offset signs (drop_trailing_Z zs s))"

text \<open>
  The split at the first \<^verbatim>\<open>T\<close> of a text that has lost its suffixes: eight
  characters of date, and six of time, padded with zeros.
\<close>

definition date_and_time :: "string \<Rightarrow> string" where
  "date_and_time s =
     (if CHR ''T'' \<notin> set s then take 8 s @ ''T000000''
      else
        let date = takeWhile (\<lambda>c. c \<noteq> CHR ''T'') s;
            time = take 6 (tl (dropWhile (\<lambda>c. c \<noteq> CHR ''T'') s))
        in take 8 date @ ''T'' @ time @ replicate (6 - length time) CHR ''0'')"

text \<open>
  The reference. In a text with no \<^verbatim>\<open>T\<close> every dash is a dash of the date: dashes and
  colons go, then the suffixes, and the first eight characters are the date. In a text
  with a \<^verbatim>\<open>T\<close> the date is what stands before the first \<^verbatim>\<open>T\<close>, without its dashes
  and colons; the time is what stands after it, and there the offset is looked for
  with its sign, \<^verbatim>\<open>+\<close> or \<^verbatim>\<open>-\<close>, before any dash is removed.
\<close>

definition reference_normalize :: "string \<Rightarrow> string \<Rightarrow> string" where
  "reference_normalize zs dateStr =
     (if dateStr = '''' then ''''
      else if CHR ''T'' \<notin> set dateStr then
        take 8 (drop_suffixes zs ''+'' (without ''-:'' dateStr)) @ ''T000000''
      else
        let date = without ''-:'' (takeWhile (\<lambda>c. c \<noteq> CHR ''T'') dateStr);
            rest = tl (dropWhile (\<lambda>c. c \<noteq> CHR ''T'') dateStr);
            time = take 6 (without ''-'' (drop_suffixes zs ''+-'' (without '':'' rest)))
        in take 8 date @ ''T'' @ time @ replicate (6 - length time) CHR ''0'')"

text \<open>In the words of the specification the zone letter is \<^verbatim>\<open>Z\<close>.\<close>

definition normalizeCalDate_spec :: "string \<Rightarrow> string" where
  "normalizeCalDate_spec = reference_normalize ''Z''"

definition normalizeCalDate_reference :: "string \<Rightarrow> string" where
  "normalizeCalDate_reference = reference_normalize ''Zz''"

text \<open>
  A text all of whose dashes belong to its date: there is no dash after its first
  \<^verbatim>\<open>T\<close>, and the text does not end, its colons and a trailing zone letter aside,
  with a dash and four digits.
\<close>

definition time_without_dash :: "string \<Rightarrow> bool" where
  "time_without_dash s = (CHR ''-'' \<notin> set (dropWhile (\<lambda>c. c \<noteq> CHR ''T'') s))"

definition dashes_in_date :: "string \<Rightarrow> bool" where
  "dashes_in_date s =
     (time_without_dash s \<and>
      \<not> ends_with_offset ''-'' (drop_trailing_Z ''Zz'' (without '':'' s)))"

subsection \<open>The canonical form and the supported shapes\<close>

text \<open>The compact form \<^verbatim>\<open>YYYYMMDDTHHMMSS\<close>: eight digits, a \<^verbatim>\<open>T\<close>, six digits.\<close>

definition canonical :: "string \<Rightarrow> bool" where
  "canonical s =
     (length s = 15 \<and> list_all is_digit (take 8 s) \<and> s ! 8 = CHR ''T''
        \<and> list_all is_digit (drop 9 s))"

text \<open>
  The shapes of date text that the specification lists: a date written compact or with
  dashes; alone, or followed by \<^verbatim>\<open>T\<close> and a time of hours, hours and minutes, or hours,
  minutes and seconds, written compact or with colons; then an optional fraction of a
  second; then an optional zone, \<^verbatim>\<open>Z\<close> or a signed offset of hours and minutes,
  written compact or with a colon.
\<close>

datatype date_text = DateText string string string bool

datatype clock =
    Hours string
  | HoursMinutes string string
  | HoursMinutesSeconds string string string

datatype zone = NoZone | ZoneZ | ZoneOffset char string string bool

datatype time_text = TimeText clock bool "string option" zone

datatype shape = DateOnly date_text | DateTime date_text time_text

definition digits :: "nat \<Rightarrow> string \<Rightarrow> bool" where
  "digits n s = (length s = n \<and> list_all is_digit s)"

fun render_date :: "date_text \<Rightarrow> string" where
  "render_date (DateText y m d dashed) =
     (if dashed then y @ ''-'' @ m @ ''-'' @ d else y @ m @ d)"

fun render_clock :: "bool \<Rightarrow> clock \<Rightarrow> string" where
  "render_clock colons (Hours h) = h"
| "render_clock colons (HoursMinutes h m) = h @ (if colons then '':'' else '''') @ m"
| "render_clock colons (HoursMinutesSeconds h m s) =
     h @ (if colons then '':'' else '''') @ m @ (if colons then '':'' else '''') @ s"

fun render_fraction :: "string option \<Rightarrow> string" where
  "render_fraction None = ''''"
| "render_fraction (Some f) = ''.'' @ f"

fun render_zone :: "zone \<Rightarrow> string" where
  "render_zone NoZone = ''''"
| "render_zone ZoneZ = ''Z''"
| "render_zone (ZoneOffset sign hh mm colon) = sign # hh @ (if colon then '':'' else '''') @ mm"

fun render_time :: "time_text \<Rightarrow> string" where
  "render_time (TimeText c colons f z) = render_clock colons c @ render_fraction f @ render_zone z"

fun render :: "shape \<Rightarrow> string" where
  "render (DateOnly d) = render_date d"
| "render (DateTime d t) = render_date d @ ''T'' @ render_time t"

fun wf_date :: "date_text \<Rightarrow> bool" where
  "wf_date (DateText y m d dashed) = (digits 4 y \<and> digits 2 m \<and> digits 2 d)"

fun wf_clock :: "clock \<Rightarrow> bool" where
  "wf_clock (Hours h) = digits 2 h"
| "wf_clock (HoursMinutes h m) = (digits 2 h \<and> digits 2 m)"
| "wf_clock (HoursMinutesSeconds h m s) = (digits 2 h \<and> digits 2 m \<and> digits 2 s)"

fun wf_fraction :: "string option \<Rightarrow> bool" where
  "wf_fraction None = True"
| "wf_fraction (Some f) = (f \<noteq> [] \<and> list_all is_digit f)"

fun wf_zone :: "zone \<Rightarrow> bool" where
  "wf_zone NoZone = True"
| "wf_zone ZoneZ = True"
| "wf_zone (ZoneOffset sign hh mm colon) =
     ((sign = CHR ''+'' \<or> sign = CHR ''-'') \<and> digits 2 hh \<and> digits 2 mm)"

fun wf_time :: "time_text \<Rightarrow> bool" where
  "wf_time (TimeText c colons f z) = (wf_clock c \<and> wf_fraction f \<and> wf_zone z)"

fun wf_shape :: "shape \<Rightarrow> bool" where
  "wf_shape (DateOnly d) = wf_date d"
| "wf_shape (DateTime d t) = (wf_date d \<and> wf_time t)"

text \<open>The text once its dashes and colons are removed.\<close>

definition cleanup :: "string \<Rightarrow> string" where
  "cleanup s = remove_all CHR '':'' (remove_all CHR ''-'' s)"

section \<open>Model output: \<^verbatim>\<open>extractJSON\<close>\<close>

subsection \<open>The two fence replacements\<close>

text \<open>
  \<^verbatim>\<open>text.replace(/^```(?:json)?\s*/im, "")\<close> deletes the first match, searching from the
  left. Under the \<^verbatim>\<open>m\<close> flag \<^verbatim>\<open>^\<close> holds at the start of the input and after a line
  terminator; under \<^verbatim>\<open>i\<close> the tag matches in either case, and no character outside
  the letters themselves folds to one of them. \<^term>\<open>match_fence_open s\<close>
  is what is left of \<open>s\<close> when the pattern (without \<^verbatim>\<open>^\<close>) matches at its start:
  three backquotes, the tag if it is there, and all the white space that follows.
\<close>

definition json_tag :: "ustring \<Rightarrow> bool" where
  "json_tag s =
     (case s of
        a # b # c # d # rest \<Rightarrow>
          (a = of_char CHR ''j'' \<or> a = of_char CHR ''J'') \<and>
          (b = of_char CHR ''s'' \<or> b = of_char CHR ''S'') \<and>
          (c = of_char CHR ''o'' \<or> c = of_char CHR ''O'') \<and>
          (d = of_char CHR ''n'' \<or> d = of_char CHR ''N'')
      | _ \<Rightarrow> False)"

definition match_fence_open :: "ustring \<Rightarrow> ustring option" where
  "match_fence_open s =
     (if take 3 s = backquotes then
        (let r = drop 3 s; r' = (if json_tag r then drop 4 r else r)
         in Some (dropWhile is_space r'))
      else None)"

fun replace_fence_open :: "bool \<Rightarrow> ustring \<Rightarrow> ustring" where
  "replace_fence_open line_start [] = []"
| "replace_fence_open line_start (c # cs) =
     (case (if line_start then match_fence_open (c # cs) else None) of
        Some rest \<Rightarrow> rest
      | None \<Rightarrow> c # replace_fence_open (is_line_terminator c) cs)"

text \<open>
  \<^verbatim>\<open>.replace(/\s*```\s*$/m, "")\<close>. At a position the first \<^verbatim>\<open>\s*\<close> takes all the white
  space there is (with less, a white space character would have to be a backquote), the
  backquotes follow, and the second \<^verbatim>\<open>\s*\<close> gives back characters until \<^verbatim>\<open>$\<close> holds:
  at the end of the input, or else before the last line terminator of the white space
  after the backquotes. \<^term>\<open>from_last_terminator ws\<close> is \<open>ws\<close> from its last line
  terminator on.
\<close>

fun from_last_terminator :: "ustring \<Rightarrow> ustring option" where
  "from_last_terminator [] = None"
| "from_last_terminator (c # cs) =
     (case from_last_terminator cs of
        Some r \<Rightarrow> Some r
      | None \<Rightarrow> if is_line_terminator c then Some (c # cs) else None)"

definition match_fence_close :: "ustring \<Rightarrow> ustring option" where
  "match_fence_close s =
     (let r = dropWhile is_space s in
      if take 3 r = backquotes then
        (let ws = takeWhile is_space (drop 3 r); rest = dropWhile is_space (drop 3 r)
         in if rest = [] then Some []
            else (case from_last_terminator ws of
                    Some tail \<Rightarrow> Some (tail @ rest)
                  | None \<Rightarrow> None))
      else None)"

fun replace_fence_close :: "ustring \<Rightarrow> ustring" where
  "replace_fence_close [] = []"
| "replace_fence_close (c # cs) =
     (case match_fence_close (c # cs) of
        Some rest \<Rightarrow> rest
      | None \<Rightarrow> c # replace_fence_close cs)"

subsection \<open>The scan for the closing brace\<close>

text \<open>
  The \<^verbatim>\<open>for\<close> loop, run on the characters from index \<open>i\<close> on: the index of the
  closing brace that brings the depth back to zero, or \<^term>\<open>None\<close> when the loop runs
  off the end with \<^verbatim>\<open>end\<close> still -1.
\<close>

fun scan_braces :: "int \<Rightarrow> nat \<Rightarrow> ustring \<Rightarrow> nat option" where
  "scan_braces depth i [] = None"
| "scan_braces depth i (c # cs) =
     (if c = lbrace then scan_braces (depth + 1) (i + 1) cs
      else if c = rbrace then
        (if depth - 1 = 0 then Some i else scan_braces (depth - 1) (i + 1) cs)
      else scan_braces depth (i + 1) cs)"

definition extractJSON :: "ustring \<Rightarrow> error + ustring" where
  "extractJSON text =
     (let fenced = trim (replace_fence_close (replace_fence_open True text)) in
      case indexOf lbrace fenced of
        None \<Rightarrow> Inl NoJsonFound
      | Some start \<Rightarrow>
          (case scan_braces 0 start (drop start fenced) of
             None \<Rightarrow> Inl UnclosedJson
           | Some end \<Rightarrow> Inr (take (end + 1 - start) (drop start fenced))))"

subsection \<open>Brace structure of a text\<close>

text \<open>
  Whether the brace depth, starting from \<open>depth\<close>, comes back to zero somewhere in the
  text; and the text whose first opening brace is never closed.
\<close>

fun closes :: "int \<Rightarrow> ustring \<Rightarrow> bool" where
  "closes depth [] = False"
| "closes depth (c # cs) =
     (if c = lbrace then closes (depth + 1) cs
      else if c = rbrace then (if depth - 1 = 0 then True else closes (depth - 1) cs)
      else closes depth cs)"

definition never_closed :: "ustring \<Rightarrow> bool" where
  "never_closed text =
     (lbrace \<in> set text \<and> \<not> closes 0 (dropWhile (\<lambda>c. c \<noteq> lbrace) text))"

definition braces :: "ustring \<Rightarrow> ustring" where
  "braces s = filter (\<lambda>c. c = lbrace \<or> c = rbrace) s"

text \<open>
  A text that is one brace-balanced object from its first character to its last, on
  one line: it opens with a brace and the depth first returns to zero at its last
  character.
\<close>

definition object_text :: "ustring \<Rightarrow> bool" where
  "object_text t =
     (t \<noteq> [] \<and> hd t = lbrace \<and> scan_braces 0 0 t = Some (length t - 1)
        \<and> list_all (\<lambda>c. \<not> is_line_terminator c) t)"

section \<open>The texts of the round-trip property: \<^verbatim>\<open>JSON.stringify\<close>\<close>

text \<open>
  \<^verbatim>\<open>JSON.stringify(o)\<close> with no indentation, for JSON values whose numbers are
  integers and whose strings are any sequences of code units, as the language standard
  defines it: no white space between tokens, members in the order of the object,
  strings in double quotes. In a string the quote, the backslash and the code units
  below U+0020 are escaped, and so is a surrogate code unit that is not half of a
  pair; every other code unit is written as it is, the line separators U+2028 and
  U+2029 among them. It is the platform's function, modelled to state the property.
\<close>

definition digit_char :: "nat \<Rightarrow> char" where
  "digit_char n = ''0123456789abcdef'' ! n"

fun decimal :: "nat \<Rightarrow> string" where
  "decimal n = (if n < 10 then [digit_char n] else decimal (n div 10) @ [digit_char (n mod 10)])"

declare decimal.simps [simp del]

definition number_text :: "int \<Rightarrow> ustring" where
  "number_text n =
     units (if n < 0 then CHR ''-'' # decimal (nat (- n)) else decimal (nat n))"

definition is_lead_surrogate :: "nat \<Rightarrow> bool" where
  "is_lead_surrogate c = (0xD800 \<le> c \<and> c \<le> 0xDBFF)"

definition is_trail_surrogate :: "nat \<Rightarrow> bool" where
  "is_trail_surrogate c = (0xDC00 \<le> c \<and> c \<le> 0xDFFF)"

definition unicode_escape :: "nat \<Rightarrow> ustring" where
  "unicode_escape c =
     [0x5C, of_char CHR ''u''] @
     units [digit_char (c div 4096 mod 16), digit_char (c div 256 mod 16),
            digit_char (c div 16 mod 16), digit_char (c mod 16)]"

definition quote_char :: "nat \<Rightarrow> ustring" where
  "quote_char c =
     (if c = 0x22 then [0x5C, 0x22]
      else if c = 0x5C then [0x5C, 0x5C]
      else if c = 0x08 then [0x5C, of_char CHR ''b'']
      else if c = 0x0C then [0x5C, of_char CHR ''f'']
      else if c = 0x0A then [0x5C, of_char CHR ''n'']
      else if c = 0x0D then [0x5C, of_char CHR ''r'']
      else if c = 0x09 then [0x5C, of_char CHR ''t'']
      else if c < 0x20 \<or> is_lead_surrogate c \<or> is_trail_surrogate c then unicode_escape c
      else [c])"

fun quote_chars :: "ustring \<Rightarrow> ustring" where
  "quote_chars [] = []"
| "quote_chars [c] = quote_char c"
| "quote_chars (c # d # cs) =
     (if is_lead_surrogate c \<and> is_trail_surrogate d then c # d # quote_chars cs
      else quote_char c @ quote_chars (d # cs))"

definition quote :: "ustring \<Rightarrow> ustring" where
  "quote s = 0x22 # quote_chars s @ [0x22]"

fun join_comma :: "ustring list \<Rightarrow> ustring" where
  "join_comma [] = []"
| "join_comma [x] = x"
| "join_comma (x # y # ys) = x @ units '','' @ join_comma (y # ys)"

fun stringify :: "ustring json_of \<Rightarrow> ustring"
  and stringify_elements :: "ustring json_of list \<Rightarrow> ustring list"
  and stringify_members :: "(ustring \<times> ustring json_of) list \<Rightarrow> ustring list" where
  "stringify JNull = units ''null''"
| "stringify (JBool b) = (if b then units ''true'' else units ''false'')"
| "stringify (JNum n) = number_text n"
| "stringify (JStr s) = quote s"
| "stringify (JArr xs) = units ''['' @ join_comma (stringify_elements xs) @ units '']''"
| "stringify (JObj kvs) = [lbrace] @ join_comma (stringify_members kvs) @ [rbrace]"
| "stringify_elements [] = []"
| "stringify_elements (x # xs) = stringify x # stringify_elements xs"
| "stringify_members [] = []"
| "stringify_members ((k, v) # kvs) = (quote k @ units '':'' @ stringify v) # stringify_members kvs"

text \<open>
  A string that holds no brace and no line separator, and a value all of whose keys
  and strings are so.
\<close>

definition plain :: "ustring \<Rightarrow> bool" where
  "plain s = (lbrace \<notin> set s \<and> rbrace \<notin> set s \<and> 0x2028 \<notin> set s \<and> 0x2029 \<notin> set s)"

fun plain_value :: "ustring json_of \<Rightarrow> bool"
  and plain_elements :: "ustring json_of list \<Rightarrow> bool"
  and plain_members :: "(ustring \<times> ustring json_of) list \<Rightarrow> bool" where
  "plain_value JNull = True"
| "plain_value (JBool b) = True"
| "plain_value (JNum n) = True"
| "plain_value (JStr s) = plain s"
| "plain_value (JArr xs) = plain_elements xs"
| "plain_value (JObj kvs) = plain_members kvs"
| "plain_elements [] = True"
| "plain_elements (x # xs) = (plain_value x \<and> plain_elements xs)"
| "plain_members [] = True"
| "plain_members ((k, v) # kvs) = (plain k \<and> plain_value v \<and> plain_members kvs)"

text \<open>
  The wrappers of the property: a Markdown code fence around the text, with or without
  the language tag.
\<close>

definition fence :: "bool \<Rightarrow> ustring \<Rightarrow> ustring" where
  "fence tagged t =
     backquotes @ (if tagged then units ''json'' else []) @ [0x0A] @ t @ [0x0A] @ backquotes"

text \<open>
  A text through which the scan passes at any depth of at least one: it does not stop
  inside, and leaves at the depth at which it entered.
\<close>

definition passes :: "ustring \<Rightarrow> bool" where
  "passes s =
     (\<forall>d i rest. 1 \<le> d \<longrightarrow> scan_braces d i (s @ rest) = scan_braces d (i + length s) rest)"

definition one_line :: "ustring \<Rightarrow> bool" where
  "one_line s = list_all (\<lambda>c. \<not> is_line_terminator c) s"

definition safe :: "nat \<Rightarrow> bool" where
  "safe c = (c \<noteq> lbrace \<and> c \<noteq> rbrace \<and> \<not> is_line_terminator c)"

section \<open>Post-processing of records: \<^verbatim>\<open>normalizeCalendarData\<close>, \<^verbatim>\<open>normalizeTaskData\<close>\<close>

text \<open>
  The object that \<^verbatim>\<open>JSON.parse\<close> returns is a finite map from keys to values; the
  functions update it in place and return it. \<^term>\<open>normalize_field k\<close> is the statement
  \<^verbatim>\<open>if (data.k) data.k = normalizeCalDate(data.k)\<close>.
\<close>

type_synonym jsobject = "string \<rightharpoonup> json"

definition normalize_field :: "string \<Rightarrow> jsobject \<Rightarrow> error + jsobject" where
  "normalize_field k data =
     (if truthy (data k) then
        (case normalizeCalDate (data k) of
           Inl e \<Rightarrow> Inl e
         | Inr v \<Rightarrow> Inr (data(k := v)))
      else Inr data)"

definition normalizeCalendarData :: "jsobject \<Rightarrow> error + jsobject" where
  "normalizeCalendarData data =
     (case normalize_field ''startDate'' data of
        Inl e \<Rightarrow> Inl e
      | Inr d1 \<Rightarrow>
          (case normalize_field ''endDate'' d1 of
             Inl e \<Rightarrow> Inl e
           | Inr d2 \<Rightarrow> Inr (d2(''forceAllDay'' \<mapsto> JBool (truthy (d2 ''forceAllDay''))))))"

definition normalizeTaskData :: "jsobject \<Rightarrow> error + jsobject" where
  "normalizeTaskData data =
     (case normalize_field ''dueDate'' data of
        Inl e \<Rightarrow> Inl e
      | Inr d1 \<Rightarrow>
          (case normalize_field ''initialDate'' d1 of
             Inl e \<Rightarrow> Inl e
           | Inr d2 \<Rightarrow>
               if truthy (d2 ''InitialDate'') then
                 (case normalizeCalDate (d2 ''InitialDate'') of
                    Inl e \<Rightarrow> Inl e
                  | Inr v \<Rightarrow> Inr ((d2(''initialDate'' := v))(''InitialDate'' := None)))
               else Inr d2))"

text \<open>
  What a date field may hold on input: nothing that counts (absent, \<^verbatim>\<open>null\<close>, the
  empty string) or a string; with a string of a supported shape in the stronger form.
\<close>

definition text_or_falsy :: "json option \<Rightarrow> bool" where
  "text_or_falsy v = (\<not> truthy v \<or> (\<exists>s. v = Some (JStr s)))"

definition supported_value :: "json option \<Rightarrow> bool" where
  "supported_value v = (\<not> truthy v \<or> (\<exists>sh. wf_shape sh \<and> v = Some (JStr (render sh))))"

text \<open>
  A date field \<open>w\<close> of the result against the input value \<open>v\<close> it comes from: it is
  \<^verbatim>\<open>normalizeCalDate\<close> of that value, which is the value itself when that is falsy and
  a canonical string otherwise.
\<close>

definition normalized_from :: "json option \<Rightarrow> json option \<Rightarrow> bool" where
  "normalized_from v w =
     (normalizeCalDate v = Inr w \<and>
      (if truthy v then (\<exists>c. canonical c \<and> w = Some (JStr c)) else w = v))"

section \<open>The model client: \<^verbatim>\<open>isValidHostUrl\<close> and \<^verbatim>\<open>callOllama\<close>\<close>

text \<open>
  \<^verbatim>\<open>new URL(str)\<close> is the platform's parser: it is a parameter that returns the parsed
  URL, of which the code reads the protocol, or \<^term>\<open>None\<close> where the constructor
  throws.
\<close>

record url =
  protocol :: string

definition isValidHostUrl :: "(string \<Rightarrow> url option) \<Rightarrow> string \<Rightarrow> bool" where
  "isValidHostUrl parseURL str =
     (case parseURL str of
        None \<Rightarrow> False
      | Some u \<Rightarrow> protocol u = ''http:'' \<or> protocol u = ''https:'')"

text \<open>
  The network is the parameter \<open>fetch\<close>: what a request is answered with. The call
  returns its result together with the requests it has issued, in order. The timer
  that aborts the request after 60 seconds shows as a rejection with the abort flag.
\<close>

record request =
  req_url :: string
  req_body :: ustring

datatype response = Response (ok: bool) (status: nat) (body_text: string) (body_json: "json option")

datatype fetch_result = Rejected bool string | Resolved response

text \<open>\<^verbatim>\<open>host.replace(/\/$/, "")\<close>.\<close>

definition strip_trailing_slash :: "string \<Rightarrow> string" where
  "strip_trailing_slash s = (if s \<noteq> [] \<and> last s = CHR ''/'' then butlast s else s)"

text \<open>\<^verbatim>\<open>data.response\<close>: a property read, which throws on \<^verbatim>\<open>null\<close>.\<close>

fun read_response :: "json \<Rightarrow> error + json option" where
  "read_response JNull = Inl TypeError"
| "read_response (JObj kvs) = Inr (map_of (rev kvs) ''response'')"
| "read_response v = Inr None"

definition callOllama ::
  "(string \<Rightarrow> url option) \<Rightarrow> (request \<Rightarrow> fetch_result) \<Rightarrow> string \<Rightarrow> string \<Rightarrow> string
     \<Rightarrow> (error + json option) \<times> request list" where
  "callOllama parseURL fetch host model prompt =
     (if \<not> isValidHostUrl parseURL host then (Inl (InvalidHost host), [])
      else
        let req = \<lparr>req_url = strip_trailing_slash host @ ''/api/generate'',
                   req_body = stringify (JObj [(units ''model'', JStr (units model)),
                                 (units ''prompt'', JStr (units prompt)),
                                 (units ''stream'', JBool False)])\<rparr>
        in case fetch req of
             Rejected aborted message \<Rightarrow>
               (Inl (if aborted then Timeout else FetchFailed message), [req])
           | Resolved r \<Rightarrow>
               if \<not> ok r then (Inl (UpstreamError (status r) (body_text r)), [req])
               else (case body_json r of
                       None \<Rightarrow> (Inl SyntaxError, [req])
                     | Some data \<Rightarrow> (read_response data, [req])))"

subsection \<open>The scheme of a URL\<close>

text \<open>
  Modelled from the URL standard, which the platform's parser implements: the part of
  the parser that finds the scheme. Leading and trailing control characters and spaces
  are dropped, tabs and newlines are removed, and the input must then start with a
  letter followed by letters, digits, \<^verbatim>\<open>+\<close>, \<^verbatim>\<open>-\<close> or \<^verbatim>\<open>.\<close> up to a colon; the
  protocol is that scheme in lower case with the colon. An input with no scheme does
  not parse, there being no base URL. A parser keeps to the standard when the protocol
  of whatever it parses is the scheme found so.
\<close>

definition is_alpha :: "char \<Rightarrow> bool" where
  "is_alpha c = ((65 \<le> (of_char c :: nat) \<and> (of_char c :: nat) \<le> 90)
                  \<or> (97 \<le> (of_char c :: nat) \<and> (of_char c :: nat) \<le> 122))"

definition is_scheme_char :: "char \<Rightarrow> bool" where
  "is_scheme_char c = (is_alpha c \<or> is_digit c \<or> c = CHR ''+'' \<or> c = CHR ''-'' \<or> c = CHR ''.'')"

definition to_lower :: "char \<Rightarrow> char" where
  "to_lower c =
     (if 65 \<le> (of_char c :: nat) \<and> (of_char c :: nat) \<le> 90
      then char_of ((of_char c :: nat) + 32) else c)"

definition is_control_or_space :: "char \<Rightarrow> bool" where
  "is_control_or_space c = ((of_char c :: nat) \<le> 32)"

definition url_input :: "string \<Rightarrow> string" where
  "url_input s =
     filter (\<lambda>c. c \<noteq> CHR 0x09 \<and> c \<noteq> CHR 0x0A \<and> c \<noteq> CHR 0x0D)
       (rev (dropWhile is_control_or_space (rev (dropWhile is_control_or_space s))))"

definition url_scheme :: "string \<Rightarrow> string option" where
  "url_scheme s =
     (case url_input s of
        [] \<Rightarrow> None
      | c # cs \<Rightarrow>
          if is_alpha c then
            (case dropWhile is_scheme_char cs of
               [] \<Rightarrow> None
             | x # rest \<Rightarrow>
                 if x = CHR '':''
                 then Some (map to_lower (c # takeWhile is_scheme_char cs) @ '':'')
                 else None)
          else None)"

definition standard_parser :: "(string \<Rightarrow> url option) \<Rightarrow> bool" where
  "standard_parser parseURL =
     (\<forall>s u. parseURL s = Some u \<longrightarrow> url_scheme s = Some (protocol u))"

text \<open>The parser that accepts every input with a scheme, for concrete instances.\<close>

definition scheme_parser :: "string \<Rightarrow> url option" where
  "scheme_parser s = map_option (\<lambda>p. \<lparr>protocol = p\<rparr>) (url_scheme s)"

section \<open>The calendar helpers of \<^verbatim>\<open>handleCalendar\<close>\<close>

subsection \<open>Canonical timestamps as calendar fields\<close>

text \<open>
  The fields of a canonical timestamp, read with \<^verbatim>\<open>parseInt\<close> from its digit groups
  and written back padded with zeros.
\<close>

record stamp =
  year :: nat
  month :: nat
  day :: nat
  hour :: nat
  minute :: nat
  second :: nat

definition digit_value :: "char \<Rightarrow> nat" where
  "digit_value c = of_char c - 48"

definition number_of :: "string \<Rightarrow> nat" where
  "number_of s = foldl (\<lambda>n c. 10 * n + digit_value c) 0 s"

definition pad_number :: "nat \<Rightarrow> nat \<Rightarrow> string" where
  "pad_number w n = replicate (w - length (decimal n)) CHR ''0'' @ decimal n"

definition parse_stamp :: "string \<Rightarrow> stamp" where
  "parse_stamp s =
     \<lparr>year = number_of (take 4 s), month = number_of (take 2 (drop 4 s)),
      day = number_of (take 2 (drop 6 s)), hour = number_of (take 2 (drop 9 s)),
      minute = number_of (take 2 (drop 11 s)), second = number_of (take 2 (drop 13 s))\<rparr>"

definition render_stamp :: "stamp \<Rightarrow> string" where
  "render_stamp t =
     pad_number 4 (year t) @ pad_number 2 (month t) @ pad_number 2 (day t) @ ''T'' @
     pad_number 2 (hour t) @ pad_number 2 (minute t) @ pad_number 2 (second t)"

definition leap_year :: "nat \<Rightarrow> bool" where
  "leap_year y = (y mod 4 = 0 \<and> (y mod 400 = 0 \<or> y mod 100 \<noteq> 0))"

definition days_in_month :: "nat \<Rightarrow> nat \<Rightarrow> nat" where
  "days_in_month y m =
     (if m = 2 then (if leap_year y then 29 else 28)
      else if m = 4 \<or> m = 6 \<or> m = 9 \<or> m = 11 then 30 else 31)"

definition valid_stamp :: "stamp \<Rightarrow> bool" where
  "valid_stamp t =
     (1 \<le> month t \<and> month t \<le> 12 \<and> 1 \<le> day t \<and> day t \<le> days_in_month (year t) (month t)
        \<and> hour t < 24 \<and> minute t < 60 \<and> second t < 60)"

text \<open>
  The time line: the days before a year and before a month of it, counted from the
  lengths of the years and months, and the seconds of a timestamp on it.
\<close>

fun days_before_year :: "nat \<Rightarrow> nat" where
  "days_before_year 0 = 0"
| "days_before_year (Suc y) = days_before_year y + (if leap_year y then 366 else 365)"

definition days_before_month :: "nat \<Rightarrow> nat \<Rightarrow> nat" where
  "days_before_month y m = sum_list (map (days_in_month y) [1..<m])"

definition day_number :: "stamp \<Rightarrow> nat" where
  "day_number t = days_before_year (year t) + days_before_month (year t) (month t) + day t"

definition seconds_of :: "stamp \<Rightarrow> nat" where
  "seconds_of t = ((day_number t * 24 + hour t) * 60 + minute t) * 60 + second t"

subsection \<open>\<^verbatim>\<open>advancePastYear\<close>\<close>

text \<open>
  Modelled from the spec: \<^verbatim>\<open>advancePastYear(dateStr, refYear)\<close>, called by
  \<^verbatim>\<open>handleCalendar\<close> and defined in a part of \<^verbatim>\<open>utils.js\<close> that is not among the
  sources. The specification: when the year of the normalized date is before the
  reference year, the year is advanced by whole years until it is not, month, day and
  time staying as they are; a date that is not before the reference is left unchanged.
\<close>

function advance_year :: "nat \<Rightarrow> nat \<Rightarrow> nat" where
  "advance_year y refYear = (if y < refYear then advance_year (y + 1) refYear else y)"
  by pat_completeness auto
termination
  by (relation "measure (\<lambda>(y, refYear). refYear - y)") auto

declare advance_year.simps [simp del]

definition advancePastYear :: "string \<Rightarrow> nat \<Rightarrow> string" where
  "advancePastYear dateStr refYear =
     (if number_of (take 4 dateStr) < refYear
      then pad_number 4 (advance_year (number_of (take 4 dateStr)) refYear) @ drop 4 dateStr
      else dateStr)"

text \<open>A date on or after another, by year, month and day.\<close>

definition on_or_after :: "stamp \<Rightarrow> stamp \<Rightarrow> bool" where
  "on_or_after d r =
     (year r < year d \<or> (year d = year r \<and>
        (month r < month d \<or> (month d = month r \<and> day r \<le> day d))))"

text \<open>
  The reference year in \<^verbatim>\<open>handleCalendar\<close>:
  \<^verbatim>\<open>parseInt(currentDt.slice(-4), 10)\<close>. \<^verbatim>\<open>parseInt\<close> skips leading white space,
  reads an optional sign and then the longest run of digits, and gives \<^verbatim>\<open>NaN\<close>,
  here \<^term>\<open>None\<close>, when there is no digit.
\<close>

definition parseInt10 :: "string \<Rightarrow> int option" where
  "parseInt10 s =
     (let t = dropWhile (\<lambda>c. is_space (of_char c)) s;
          negative = (t \<noteq> [] \<and> hd t = CHR ''-'');
          u = (if t \<noteq> [] \<and> (hd t = CHR ''+'' \<or> hd t = CHR ''-'') then tl t else t);
          z = takeWhile is_digit u
      in if z = [] then None
         else Some (if negative then - int (number_of z) else int (number_of z)))"

definition refYear_of :: "string \<Rightarrow> int option" where
  "refYear_of currentDt = parseInt10 (drop (length currentDt - 4) currentDt)"

subsection \<open>\<^verbatim>\<open>addHoursToCalDate\<close> and the all-day adjustment\<close>

text \<open>
  Modelled from the spec: \<^verbatim>\<open>addHoursToCalDate(dateStr, hours)\<close>, called by
  \<^verbatim>\<open>handleCalendar\<close> and defined in a part of \<^verbatim>\<open>utils.js\<close> that is not among the
  sources. The specification: the end date is advanced by one full day, the result
  being exactly 24 hours later. The model steps the calendar fields hour by hour.
\<close>

definition next_day :: "stamp \<Rightarrow> stamp" where
  "next_day t =
     (if day t < days_in_month (year t) (month t) then t\<lparr>day := day t + 1\<rparr>
      else if month t < 12 then t\<lparr>month := month t + 1, day := 1\<rparr>
      else t\<lparr>year := year t + 1, month := 1, day := 1\<rparr>)"

definition add_hour :: "stamp \<Rightarrow> stamp" where
  "add_hour t = (if hour t < 23 then t\<lparr>hour := hour t + 1\<rparr> else (next_day t)\<lparr>hour := 0\<rparr>)"

definition addHoursToCalDate :: "string \<Rightarrow> nat \<Rightarrow> string" where
  "addHoursToCalDate dateStr hours = render_stamp ((add_hour ^^ hours) (parse_stamp dateStr))"

text \<open>
  The last step of \<^verbatim>\<open>handleCalendar\<close> before the dialog opens. A truthy
  \<^verbatim>\<open>endDate\<close> is a string here, \<^verbatim>\<open>normalizeCalendarData\<close> having thrown otherwise.
\<close>

definition allDayAdjust :: "jsobject \<Rightarrow> error + jsobject" where
  "allDayAdjust parsed =
     (if truthy (parsed ''forceAllDay'') \<and> truthy (parsed ''endDate'')
           \<and> parsed ''endDate'' \<noteq> parsed ''startDate''
      then (case parsed ''endDate'' of
              Some (JStr e) \<Rightarrow> Inr (parsed(''endDate'' \<mapsto> JStr (addHoursToCalDate e 24)))
            | _ \<Rightarrow> Inl TypeError)
      else Inr parsed)"

section \<open>Properties of \<^verbatim>\<open>extractTextBody\<close>\<close>

lemma body_of_first_append:
  "body_of_first (xs @ ys) =
     (if body_of_first xs \<noteq> '''' then body_of_first xs else body_of_first ys)"
proof (induction xs)
  case Nil
  show ?case by (simp add: body_of_first_def)
next
  case (Cons x xs)
  show ?case
  proof (cases "is_plain_text x")
    case True
    then show ?thesis by (cases x) (auto simp: body_of_first_def)
  next
    case False
    with Cons show ?thesis by (simp add: body_of_first_def)
  qed
qed

lemma extract_preorder_both:
  "extractTextBody p = body_of_first (preorder p)"
  "firstText cs = body_of_first (preorder_list cs)"
proof (induction p and cs rule: extractTextBody_firstText.induct)
  case 1
  show ?case by (simp add: body_of_first_def)
next
  case (2 ct b ps)
  then show ?case by (auto simp: body_of_first_def split: option.splits)
next
  case 3
  show ?case by (simp add: body_of_first_def)
next
  case (4 child rest)
  then show ?case by (simp add: body_of_first_append Let_def)
qed

text \<open>
  C9. For every message-part tree, \<^verbatim>\<open>extractTextBody\<close> returns the body of the first
  part in depth-first pre-order whose content type is \<^verbatim>\<open>text/plain\<close> and whose body
  is non-empty; it returns the empty string for \<^verbatim>\<open>null\<close> or \<^verbatim>\<open>undefined\<close> and
  when the tree has no such part.
\<close>

theorem extractTextBody_first_preorder:
  "extractTextBody NoPart = '''' \<and>
   extractTextBody p =
     (case find is_plain_text (preorder p) of None \<Rightarrow> '''' | Some q \<Rightarrow> the (body q))"
  using extract_preorder_both(1) [of p] by (simp add: body_of_first_def)

section \<open>Properties of \<^verbatim>\<open>normalizeCalDate\<close>\<close>

subsection \<open>The anchored replacements act on the end of the string\<close>

lemma strip_trailing_Z_eq:
  "strip_trailing_Z s = drop_trailing_Z ''Zz'' s"
  by (induction s) (auto simp: ends_with_Z_def drop_trailing_Z_def)

lemma strip_tz_offset_short: "length s < 5 \<Longrightarrow> strip_tz_offset s = s"
  by (induction s) auto

lemma strip_tz_offset_eq: "strip_tz_offset s = drop_trailing_offset ''+-'' s"
  unfolding drop_trailing_offset_def
proof (induction s)
  case Nil
  show ?case by (simp add: ends_with_offset_def)
next
  case (Cons c cs)
  consider "length cs < 4" | "length cs = 4" | "4 < length cs" by linarith
  then show ?case
  proof cases
    case 1
    then show ?thesis by (simp add: strip_tz_offset_short ends_with_offset_def)
  next
    case 2
    then show ?thesis by (auto simp: strip_tz_offset_short ends_with_offset_def)
  next
    case 3
    define m where "m = length cs - 5"
    have m: "length cs = m + 5" using 3 by (simp add: m_def)
    have e: "ends_with_offset ''+-'' (c # cs) = ends_with_offset ''+-'' cs"
      by (simp add: ends_with_offset_def m)
    from Cons e m show ?thesis by simp
  qed
qed

lemma is_digit_not_dot: "is_digit c \<Longrightarrow> c \<noteq> CHR ''.''"
  by (auto simp: is_digit_def)

lemma strip_fraction_decomp:
  "ds \<noteq> [] \<Longrightarrow> list_all is_digit ds \<Longrightarrow> strip_fraction (a @ CHR ''.'' # ds) = a"
proof (induction a)
  case Nil
  then show ?case by simp
next
  case (Cons x a)
  have "\<not> list_all is_digit (a @ CHR ''.'' # ds)"
    using is_digit_not_dot by auto
  with Cons show ?case by simp
qed

lemma strip_fraction_none:
  "\<not> (\<exists>a ds. s = a @ CHR ''.'' # ds \<and> ds \<noteq> [] \<and> list_all is_digit ds)
     \<Longrightarrow> strip_fraction s = s"
proof (induction s)
  case Nil
  show ?case by simp
next
  case (Cons c cs)
  have "\<not> (\<exists>a ds. cs = a @ CHR ''.'' # ds \<and> ds \<noteq> [] \<and> list_all is_digit ds)"
  proof
    assume "\<exists>a ds. cs = a @ CHR ''.'' # ds \<and> ds \<noteq> [] \<and> list_all is_digit ds"
    then obtain a ds where "cs = a @ CHR ''.'' # ds" "ds \<noteq> []" "list_all is_digit ds"
      by blast
    then have "c # cs = (c # a) @ CHR ''.'' # ds \<and> ds \<noteq> [] \<and> list_all is_digit ds"
      by simp
    with Cons.prems show False by blast
  qed
  then have ih: "strip_fraction cs = cs" by (rule Cons.IH)
  have "\<not> (c = CHR ''.'' \<and> cs \<noteq> [] \<and> list_all is_digit cs)"
  proof
    assume "c = CHR ''.'' \<and> cs \<noteq> [] \<and> list_all is_digit cs"
    then have "c # cs = [] @ CHR ''.'' # cs \<and> cs \<noteq> [] \<and> list_all is_digit cs" by simp
    with Cons.prems show False by blast
  qed
  with ih show ?case by auto
qed

lemma trailing_digits_decomp:
  "list_all is_digit ds \<Longrightarrow> trailing_digits (a @ CHR ''.'' # ds) = length ds"
proof -
  assume d: "list_all is_digit ds"
  have "takeWhile is_digit (rev ds @ CHR ''.'' # rev a) = rev ds"
    using d is_digit_not_dot by (subst takeWhile_append2) (auto simp: list_all_iff)
  then show ?thesis by (simp add: trailing_digits_def)
qed

lemma ends_with_fraction_iff:
  "ends_with_fraction s \<longleftrightarrow>
     (\<exists>a ds. s = a @ CHR ''.'' # ds \<and> ds \<noteq> [] \<and> list_all is_digit ds)"
proof
  assume e: "ends_with_fraction s"
  define k where "k = trailing_digits s"
  from e have k: "0 < k" "k < length s" "s ! (length s - k - 1) = CHR ''.''"
    by (simp_all add: ends_with_fraction_def k_def)
  define ds where "ds = drop (length s - k) s"
  define a where "a = take (length s - k - 1) s"
  have "rev ds = take k (rev s)" using k by (simp add: ds_def take_rev)
  also have "\<dots> = takeWhile is_digit (rev s)"
    unfolding k_def trailing_digits_def by (simp add: takeWhile_eq_take[symmetric])
  finally have "list_all is_digit (rev ds)"
    by (simp add: list_all_iff) (metis set_takeWhileD)
  then have d: "list_all is_digit ds" by (simp add: list_all_iff)
  have "s = take (length s - k - 1) s @ s ! (length s - k - 1) # drop (Suc (length s - k - 1)) s"
    using k by (intro id_take_nth_drop) simp
  moreover have "Suc (length s - k - 1) = length s - k" using k by simp
  ultimately have "s = a @ CHR ''.'' # ds" using k by (simp add: a_def ds_def)
  moreover have "ds \<noteq> []" using k by (simp add: ds_def)
  ultimately show "\<exists>a ds. s = a @ CHR ''.'' # ds \<and> ds \<noteq> [] \<and> list_all is_digit ds"
    using d by blast
next
  assume "\<exists>a ds. s = a @ CHR ''.'' # ds \<and> ds \<noteq> [] \<and> list_all is_digit ds"
  then obtain a ds where s: "s = a @ CHR ''.'' # ds" and d: "ds \<noteq> []" "list_all is_digit ds"
    by blast
  then show "ends_with_fraction s"
    by (simp add: ends_with_fraction_def trailing_digits_decomp nth_append)
qed

lemma strip_fraction_eq: "strip_fraction s = drop_trailing_fraction s"
proof (cases "ends_with_fraction s")
  case True
  then obtain a ds where s: "s = a @ CHR ''.'' # ds" and d: "ds \<noteq> []" "list_all is_digit ds"
    unfolding ends_with_fraction_iff by blast
  then show ?thesis
    using True
    by (simp add: drop_trailing_fraction_def strip_fraction_decomp trailing_digits_decomp)
next
  case False
  then have "\<not> (\<exists>a ds. s = a @ CHR ''.'' # ds \<and> ds \<noteq> [] \<and> list_all is_digit ds)"
    by (simp add: ends_with_fraction_iff)
  then have "strip_fraction s = s" by (rule strip_fraction_none)
  with False show ?thesis by (simp add: drop_trailing_fraction_def)
qed

lemma remove_dash_colon:
  "remove_all CHR '':'' (remove_all CHR ''-'' s) = filter (\<lambda>c. c \<notin> set ''-:'') s"
  by (induction s) (auto simp: remove_all_def)


lemma index_take:
  "c \<in> set s \<Longrightarrow> take (length (takeWhile (\<lambda>x. x \<noteq> c) s)) s = takeWhile (\<lambda>x. x \<noteq> c) s"
  by (induction s) auto

lemma index_drop:
  "c \<in> set s \<Longrightarrow>
     drop (Suc (length (takeWhile (\<lambda>x. x \<noteq> c) s))) s = tl (dropWhile (\<lambda>x. x \<noteq> c) s)"
  by (induction s) auto

lemma normalizeCalDate_str_eq:
  "normalizeCalDate_str s =
     date_and_time (strip_fraction (strip_tz_offset (strip_trailing_Z
       (remove_all CHR '':'' (remove_all CHR ''-'' s)))))"
  by (simp add: normalizeCalDate_str_def date_and_time_def indexOf_def padEnd_def Let_def
        index_take index_drop)

lemma strip_suffixes_eq:
  "strip_fraction (strip_tz_offset (strip_trailing_Z s)) = drop_suffixes ''Zz'' ''+-'' s"
  by (simp add: drop_suffixes_def strip_trailing_Z_eq strip_tz_offset_eq strip_fraction_eq)

subsection \<open>The replacements do not reach past a \<^verbatim>\<open>T\<close>\<close>

lemma strip_trailing_Z_past:
  "strip_trailing_Z (p @ CHR ''T'' # q) = p @ CHR ''T'' # strip_trailing_Z q"
  by (induction p) auto

lemma strip_tz_offset_past:
  "strip_tz_offset (p @ CHR ''T'' # q) = p @ CHR ''T'' # strip_tz_offset q"
  by (induction p) (auto simp: is_digit_def)

lemma strip_fraction_past:
  "strip_fraction (p @ CHR ''T'' # q) = p @ CHR ''T'' # strip_fraction q"
  by (induction p) (auto simp: is_digit_def)

lemma drop_suffixes_past:
  "drop_suffixes ''Zz'' ''+-'' (p @ CHR ''T'' # q) = p @ CHR ''T'' # drop_suffixes ''Zz'' ''+-'' q"
  by (simp add: strip_suffixes_eq [symmetric] strip_trailing_Z_past strip_tz_offset_past
        strip_fraction_past)

lemma drop_suffixes_subset: "set (drop_suffixes zs signs s) \<subseteq> set s"
proof -
  have a: "set (drop_trailing_Z zs s) \<subseteq> set s" for s
    by (auto simp: drop_trailing_Z_def dest: in_set_butlastD)
  have b: "set (drop_trailing_offset signs s) \<subseteq> set s" for s
    by (auto simp: drop_trailing_offset_def dest: in_set_takeD)
  have c: "set (drop_trailing_fraction s) \<subseteq> set s" for s
    by (auto simp: drop_trailing_fraction_def dest: in_set_takeD)
  show ?thesis unfolding drop_suffixes_def using a b c by blast
qed

lemma drop_trailing_offset_plus:
  assumes "CHR ''-'' \<notin> set s"
  shows "drop_trailing_offset ''+-'' s = drop_trailing_offset ''+'' s"
proof -
  have "s ! (length s - 5) \<noteq> CHR ''-''" if "5 \<le> length s"
  proof -
    have "s ! (length s - 5) \<in> set s" using that by (intro nth_mem) simp
    with assms show ?thesis by auto
  qed
  then show ?thesis by (auto simp: drop_trailing_offset_def ends_with_offset_def)
qed

lemma drop_suffixes_plus:
  assumes "CHR ''-'' \<notin> set s"
  shows "drop_suffixes zs ''+-'' s = drop_suffixes zs ''+'' s"
proof -
  have "CHR ''-'' \<notin> set (drop_trailing_Z zs s)"
    using assms by (auto simp: drop_trailing_Z_def dest: in_set_butlastD)
  then show ?thesis by (simp add: drop_suffixes_def drop_trailing_offset_plus)
qed

lemma without_dash_colon: "remove_all CHR '':'' (remove_all CHR ''-'' s) = without ''-:'' s"
  by (simp add: remove_dash_colon without_def)

lemma without_absent: "set cs \<inter> set s = {} \<Longrightarrow> without cs s = s"
  by (induction s) (auto simp: without_def)

lemma without_set: "set (without cs s) = set s - set cs"
  by (auto simp: without_def)

lemma without_append: "without cs (a @ b) = without cs a @ without cs b"
  by (simp add: without_def)

lemma without_colon_only:
  "CHR ''-'' \<notin> set s \<Longrightarrow> without ''-:'' s = without '':'' s"
  by (induction s) (auto simp: without_def)

lemma date_and_time_first:
  assumes "CHR ''T'' \<notin> set D"
  shows "date_and_time (D @ CHR ''T'' # H)
           = take 8 D @ ''T'' @ take 6 H @ replicate (6 - length (take 6 H)) CHR ''0''"
proof -
  have "takeWhile (\<lambda>c. c \<noteq> CHR ''T'') (D @ CHR ''T'' # H) = D"
    using assms by (subst takeWhile_append2) auto
  moreover have "dropWhile (\<lambda>c. c \<noteq> CHR ''T'') (D @ CHR ''T'' # H) = CHR ''T'' # H"
    using assms by (subst dropWhile_append2) auto
  ultimately show ?thesis by (simp add: date_and_time_def Let_def)
qed

lemma normalizeCalDate_str_date:
  assumes "CHR ''T'' \<notin> set s"
  shows "normalizeCalDate_str s = take 8 (drop_suffixes ''Zz'' ''+'' (without ''-:'' s)) @ ''T000000''"
proof -
  define c where "c = without ''-:'' s"
  have d: "CHR ''-'' \<notin> set c" and t: "CHR ''T'' \<notin> set c"
    using assms by (simp_all add: c_def without_set)
  have "CHR ''T'' \<notin> set (drop_suffixes ''Zz'' ''+'' c)"
    using t drop_suffixes_subset [of "''Zz''" "''+''" c] by blast
  then have "date_and_time (drop_suffixes ''Zz'' ''+'' c)
      = take 8 (drop_suffixes ''Zz'' ''+'' c) @ ''T000000''"
    by (simp add: date_and_time_def)
  moreover have "normalizeCalDate_str s = date_and_time (drop_suffixes ''Zz'' ''+'' c)"
    using d by (simp add: normalizeCalDate_str_eq strip_suffixes_eq without_dash_colon c_def
          drop_suffixes_plus)
  ultimately show ?thesis by (simp add: c_def)
qed

lemma normalizeCalDate_str_date_time:
  assumes "CHR ''T'' \<notin> set d" "CHR ''-'' \<notin> set t"
  shows "normalizeCalDate_str (d @ CHR ''T'' # t)
           = take 8 (without ''-:'' d) @ ''T''
             @ take 6 (without ''-'' (drop_suffixes ''Zz'' ''+-'' (without '':'' t)))
             @ replicate (6 - length (take 6 (without ''-'' (drop_suffixes ''Zz'' ''+-''
                 (without '':'' t))))) CHR ''0''"
proof -
  define D where "D = without ''-:'' d"
  define q where "q = without '':'' t"
  define x where "x = drop_suffixes ''Zz'' ''+-'' q"
  have T: "CHR ''T'' \<notin> set D" using assms(1) by (simp add: D_def without_set)
  have "CHR ''-'' \<notin> set q" using assms(2) by (simp add: q_def without_set)
  then have "CHR ''-'' \<notin> set x"
    using drop_suffixes_subset [of "''Zz''" "''+-''" q] by (auto simp: x_def)
  then have w: "without ''-'' x = x" by (intro without_absent) simp
  have "without ''-:'' (d @ CHR ''T'' # t) = D @ CHR ''T'' # q"
    using assms(2) by (simp add: without_append D_def q_def without_colon_only [symmetric])
       (simp add: without_def)
  then have "normalizeCalDate_str (d @ CHR ''T'' # t) = date_and_time (D @ CHR ''T'' # x)"
    by (simp add: normalizeCalDate_str_eq strip_suffixes_eq without_dash_colon
          drop_suffixes_past x_def)
  then have "normalizeCalDate_str (d @ CHR ''T'' # t)
      = take 8 D @ ''T'' @ take 6 (without ''-'' x)
        @ replicate (6 - length (take 6 (without ''-'' x))) CHR ''0''"
    using T by (simp add: date_and_time_first w)
  then show ?thesis by (simp only: D_def x_def q_def)
qed

lemma normalizeCalDate_str_reference:
  assumes "s \<noteq> ''''" "time_without_dash s"
  shows "normalizeCalDate_str s = normalizeCalDate_reference s"
proof (cases "CHR ''T'' \<in> set s")
  case False
  then show ?thesis
    using assms(1)
    by (simp add: normalizeCalDate_str_date normalizeCalDate_reference_def reference_normalize_def)
next
  case True
  define d where "d = takeWhile (\<lambda>c. c \<noteq> CHR ''T'') s"
  define t where "t = tl (dropWhile (\<lambda>c. c \<noteq> CHR ''T'') s)"
  have n: "dropWhile (\<lambda>c. c \<noteq> CHR ''T'') s \<noteq> []"
    using True by simp
  then have "hd (dropWhile (\<lambda>c. c \<noteq> CHR ''T'') s) = CHR ''T''"
    using hd_dropWhile [of "\<lambda>c. c \<noteq> CHR ''T''" s] by simp
  with n have h: "dropWhile (\<lambda>c. c \<noteq> CHR ''T'') s = CHR ''T'' # t"
    by (cases "dropWhile (\<lambda>c. c \<noteq> CHR ''T'') s") (simp_all add: t_def)
  have s: "s = d @ CHR ''T'' # t"
    using takeWhile_dropWhile_id [of "\<lambda>c. c \<noteq> CHR ''T''" s] by (simp add: d_def h)
  have a: "CHR ''T'' \<notin> set d" by (auto simp: d_def dest: set_takeWhileD)
  have b: "CHR ''-'' \<notin> set t" using assms(2) by (simp add: time_without_dash_def h)
  have "normalizeCalDate_reference s
      = take 8 (without ''-:'' d) @ ''T''
        @ take 6 (without ''-'' (drop_suffixes ''Zz'' ''+-'' (without '':'' t)))
        @ replicate (6 - length (take 6 (without ''-'' (drop_suffixes ''Zz'' ''+-''
            (without '':'' t))))) CHR ''0''"
    using True assms(1)
    by (simp add: normalizeCalDate_reference_def reference_normalize_def Let_def
          d_def [symmetric] t_def [symmetric])
  moreover note normalizeCalDate_str_date_time [OF a b]
  ultimately show ?thesis by (simp only: s [symmetric])
qed

text \<open>
  C2, as amended. On every input with no dash after its first \<^verbatim>\<open>T\<close> and which,
  its colons and a trailing \<^verbatim>\<open>Z\<close> or \<^verbatim>\<open>z\<close> aside, does not end with a dash and
  four digits, \<^verbatim>\<open>normalizeCalDate\<close> equals the reference definition in which the trailing zone
  letter is \<^verbatim>\<open>Z\<close> in either case: \<^verbatim>\<open>null\<close>, \<^verbatim>\<open>undefined\<close> and the empty string are
  returned unchanged. A text with no \<^verbatim>\<open>T\<close> loses its dashes and colons, a trailing
  \<^verbatim>\<open>Z\<close> or \<^verbatim>\<open>z\<close>, a trailing offset of \<^verbatim>\<open>+\<close> and four digits and a trailing
  fractional suffix, and the result is its first eight characters followed by
  \<^verbatim>\<open>T000000\<close>. In a text with a \<^verbatim>\<open>T\<close> the date is what stands before the first
  \<^verbatim>\<open>T\<close>, without dashes and colons, cut to eight characters; the time is what
  stands after it, without its colons, then without a trailing \<^verbatim>\<open>Z\<close> or \<^verbatim>\<open>z\<close>,
  a trailing signed four-digit offset and a trailing fractional suffix, then without
  dashes, cut to six characters and padded with zeros to six.
\<close>

theorem normalizeCalDate_equals_reference:
  "normalizeCalDate None = Inr None \<and>
   normalizeCalDate (Some JNull) = Inr (Some JNull) \<and>
   (dashes_in_date s \<longrightarrow>
      normalizeCalDate (Some (JStr s)) = Inr (Some (JStr (normalizeCalDate_reference s))))"
  using normalizeCalDate_str_reference [of s]
  by (cases "s = ''''")
     (simp_all add: normalizeCalDate_def normalizeCalDate_reference_def reference_normalize_def
        dashes_in_date_def)

theorem normalizeCalDate_equals_reference_witness:
  "dashes_in_date ''2026-02-25T09:30:15.250+05:30'' \<and>
   normalizeCalDate (Some (JStr ''2026-02-25T09:30:15.250+05:30''))
     = Inr (Some (JStr ''20260225T093015'')) \<and>
   normalizeCalDate_reference ''2026-02-25T09:30:15.250+05:30'' = ''20260225T093015''"
proof -
  have a: "dashes_in_date ''2026-02-25T09:30:15.250+05:30''"
    by (simp add: dashes_in_date_def time_without_dash_def ends_with_offset_def
          drop_trailing_Z_def ends_with_Z_def without_def)
  have b: "normalizeCalDate_reference ''2026-02-25T09:30:15.250+05:30'' = ''20260225T093015''"
    by code_simp
  show ?thesis
    using a b normalizeCalDate_equals_reference [of "''2026-02-25T09:30:15.250+05:30''"]
    by simp
qed

text \<open>
  C2, as stated, fails: the reference definition in the words of the specification
  removes a trailing \<^verbatim>\<open>Z\<close> only, the code also removes a trailing \<^verbatim>\<open>z\<close>.
\<close>

theorem normalizeCalDate_spec_counterexample:
  "normalizeCalDate (Some (JStr ''20260225T14z'')) = Inr (Some (JStr ''20260225T140000'')) \<and>
   normalizeCalDate_spec ''20260225T14z'' = ''20260225T14z000''"
  by code_simp

text \<open>
  A negative offset. The code removes every dash before it looks for the offset,
  so the sign of a negative offset is gone when \<^verbatim>\<open>/[+-]\d{4}$/\<close> is tried and its four
  digits stay in the text; where the time is shorter than six digits they enter it.
  The same offset with \<^verbatim>\<open>+\<close> is removed.
\<close>

lemma negative_offset_digits_stay:
  "normalizeCalDate (Some (JStr ''2026-02-25T09:30-0500''))
     = Inr (Some (JStr ''20260225T093005'')) \<and>
   normalizeCalDate_reference ''2026-02-25T09:30-0500'' = ''20260225T093000'' \<and>
   normalizeCalDate (Some (JStr ''2026-02-25T09:30+0500''))
     = Inr (Some (JStr ''20260225T093000''))"
  by code_simp

subsection \<open>The supported shapes normalize to the canonical form\<close>

lemma is_digit_other:
  "is_digit c \<Longrightarrow>
     c \<noteq> CHR ''-'' \<and> c \<noteq> CHR '':'' \<and> c \<noteq> CHR ''T'' \<and> c \<noteq> CHR ''.'' \<and> c \<noteq> CHR ''+''
       \<and> c \<noteq> CHR ''Z'' \<and> c \<noteq> CHR ''z''"
  by (auto simp: is_digit_def)

lemma digits_not_in:
  assumes "list_all is_digit s"
  shows "CHR ''-'' \<notin> set s" "CHR '':'' \<notin> set s" "CHR ''T'' \<notin> set s" "CHR ''.'' \<notin> set s"
    "CHR ''+'' \<notin> set s" "CHR ''Z'' \<notin> set s" "CHR ''z'' \<notin> set s"
  using assms is_digit_other by (auto simp: list_all_iff)

lemma remove_all_absent: "c \<notin> set s \<Longrightarrow> remove_all c s = s"
  by (induction s) (auto simp: remove_all_def)

lemma remove_all_append: "remove_all c (a @ b) = remove_all c a @ remove_all c b"
  by (simp add: remove_all_def)

lemma remove_all_Cons: "remove_all c (x # s) = (if x = c then remove_all c s else x # remove_all c s)"
  by (simp add: remove_all_def)

lemma cleanup_digits: "list_all is_digit s \<Longrightarrow> cleanup s = s"
  by (simp add: cleanup_def remove_all_absent digits_not_in)

lemma cleanup_append: "cleanup (a @ b) = cleanup a @ cleanup b"
  by (simp add: cleanup_def remove_all_append)

lemma cleanup_Cons:
  "cleanup (x # s) = (if x = CHR ''-'' \<or> x = CHR '':'' then cleanup s else x # cleanup s)"
  by (simp add: cleanup_def remove_all_Cons)

lemma cleanup_Nil: "cleanup [] = []"
  by (simp add: cleanup_def remove_all_def)

lemma digits_append: "digits n a \<Longrightarrow> digits m b \<Longrightarrow> digits (n + m) (a @ b)"
  by (simp add: digits_def)

lemma cleanup_date:
  assumes "wf_date d"
  shows "\<exists>D. digits 8 D \<and> cleanup (render_date d) = D"
proof (cases d)
  case (DateText y m dd dashed)
  with assms have w: "digits 4 y" "digits 2 m" "digits 2 dd" by simp_all
  then have "digits 8 (y @ m @ dd)" using digits_append [of 4 y 4 "m @ dd"] digits_append [of 2 m 2 dd]
    by simp
  moreover have "cleanup (render_date d) = y @ m @ dd"
    using w by (simp add: DateText cleanup_append cleanup_Cons cleanup_Nil cleanup_digits digits_def)
  ultimately show ?thesis by blast
qed

lemma cleanup_clock:
  assumes "wf_clock c"
  shows "\<exists>H. H \<noteq> [] \<and> list_all is_digit H \<and> cleanup (render_clock colons c) = H"
proof (cases c)
  case (Hours h)
  with assms have "h \<noteq> [] \<and> list_all is_digit h \<and> cleanup (render_clock colons c) = h"
    by (auto simp: digits_def cleanup_digits)
  then show ?thesis by blast
next
  case (HoursMinutes h m)
  with assms have "h @ m \<noteq> [] \<and> list_all is_digit (h @ m)
      \<and> cleanup (render_clock colons c) = h @ m"
    by (auto simp: digits_def cleanup_digits cleanup_append cleanup_Cons)
  then show ?thesis by blast
next
  case (HoursMinutesSeconds h m s)
  with assms have "h @ m @ s \<noteq> [] \<and> list_all is_digit (h @ m @ s)
      \<and> cleanup (render_clock colons c) = h @ m @ s"
    by (auto simp: digits_def cleanup_digits cleanup_append cleanup_Cons)
  then show ?thesis by blast
qed

lemma cleanup_fraction: "wf_fraction f \<Longrightarrow> cleanup (render_fraction f) = render_fraction f"
  by (cases f) (simp_all add: cleanup_Nil cleanup_Cons cleanup_digits)

lemma cleanup_zone:
  assumes "wf_zone z"
  shows "cleanup (render_zone z) = [] \<or> cleanup (render_zone z) = ''Z'' \<or>
         (\<exists>o4. digits 4 o4 \<and>
            (cleanup (render_zone z) = CHR ''+'' # o4 \<or> cleanup (render_zone z) = o4))"
proof (cases z)
  case NoZone
  then show ?thesis by (simp add: cleanup_Nil)
next
  case ZoneZ
  then show ?thesis by (simp add: cleanup_Nil cleanup_Cons)
next
  case (ZoneOffset sign hh mm colon)
  with assms have w: "sign = CHR ''+'' \<or> sign = CHR ''-''" "digits 2 hh" "digits 2 mm" by simp_all
  then have d: "digits 4 (hh @ mm)" using digits_append [of 2 hh 2 mm] by simp
  have c: "cleanup (hh @ (if colon then '':'' else '''') @ mm) = hh @ mm"
    using w by (simp add: cleanup_append cleanup_Cons cleanup_Nil cleanup_digits digits_def)
  have "cleanup (render_zone z) = CHR ''+'' # (hh @ mm) \<or> cleanup (render_zone z) = hh @ mm"
    using w(1) c by (auto simp: ZoneOffset cleanup_Cons)
  with d show ?thesis by blast
qed

lemma strip_trailing_Z_absent:
  "CHR ''Z'' \<notin> set s \<Longrightarrow> CHR ''z'' \<notin> set s \<Longrightarrow> strip_trailing_Z s = s"
  by (induction s) auto

lemma strip_trailing_Z_last: "strip_trailing_Z (s @ ''Z'') = s"
  by (induction s) auto

lemma strip_tz_offset_absent:
  "CHR ''+'' \<notin> set s \<Longrightarrow> CHR ''-'' \<notin> set s \<Longrightarrow> strip_tz_offset s = s"
  by (induction s) auto

lemma strip_tz_offset_last: "digits 4 o4 \<Longrightarrow> strip_tz_offset (s @ CHR ''+'' # o4) = s"
  by (induction s) (auto simp: digits_def)

lemma strip_fraction_absent: "CHR ''.'' \<notin> set s \<Longrightarrow> strip_fraction s = s"
  by (induction s) auto

lemma date_and_time_split:
  assumes "digits 8 D"
  shows "date_and_time (D @ CHR ''T'' # H) = D @ CHR ''T'' # padEnd 6 CHR ''0'' (take 6 H)"
proof -
  have n: "CHR ''T'' \<notin> set D" using assms by (simp add: digits_def digits_not_in)
  then have "takeWhile (\<lambda>c. c \<noteq> CHR ''T'') (D @ CHR ''T'' # H) = D"
    by (subst takeWhile_append2) auto
  moreover have "dropWhile (\<lambda>c. c \<noteq> CHR ''T'') (D @ CHR ''T'' # H) = CHR ''T'' # H"
    using n by (subst dropWhile_append2) auto
  ultimately show ?thesis using assms by (simp add: date_and_time_def padEnd_def digits_def)
qed

lemma date_and_time_date_only:
  "digits 8 D \<Longrightarrow> date_and_time D = D @ ''T000000''"
  by (simp add: date_and_time_def digits_def digits_not_in)

lemma canonical_result:
  assumes "digits 8 D" "list_all is_digit H"
  shows "canonical (D @ CHR ''T'' # padEnd 6 CHR ''0'' (take 6 H))"
proof -
  have l: "length (padEnd 6 CHR ''0'' (take 6 H)) = 6" by (simp add: padEnd_def)
  have "list_all is_digit (take 6 H)" using assms(2) by (auto simp: list_all_iff dest: in_set_takeD)
  moreover have "is_digit CHR ''0''" by (simp add: is_digit_def)
  ultimately have d: "list_all is_digit (padEnd 6 CHR ''0'' (take 6 H))"
    by (auto simp: padEnd_def list_all_iff)
  from assms(1) l d show ?thesis by (simp add: canonical_def digits_def nth_append)
qed

text \<open>The three anchored replacements on a cleaned date and time.\<close>

lemma strip_stages:
  assumes D: "digits 8 D" and H: "H \<noteq> []" "list_all is_digit H" and f: "wf_fraction f"
    and Z: "Z = [] \<or> Z = ''Z'' \<or> (\<exists>o4. digits 4 o4 \<and> (Z = CHR ''+'' # o4 \<or> Z = o4))"
  shows "\<exists>H'. list_all is_digit H' \<and> (f = None \<and> Z = [] \<longrightarrow> H' = H) \<and>
           strip_fraction (strip_tz_offset (strip_trailing_Z
             (D @ CHR ''T'' # H @ render_fraction f @ Z))) = D @ CHR ''T'' # H'"
proof -
  define B where "B = D @ CHR ''T'' # H @ render_fraction f"
  have fd: "list_all is_digit (the f)" "the f \<noteq> []" if "f \<noteq> None"
    using that f by (cases f; simp)+
  have Bz: "CHR ''Z'' \<notin> set B" "CHR ''z'' \<notin> set B" "CHR ''+'' \<notin> set B" "CHR ''-'' \<notin> set B"
    using D H(2) f fd by (cases f; simp add: B_def digits_def digits_not_in)+
  \<comment> \<open>after the zone letter and the offset: the body, or the body and four more digits\<close>
  have "\<exists>E. (E = [] \<or> digits 4 E) \<and> (Z = [] \<longrightarrow> E = []) \<and>
          strip_tz_offset (strip_trailing_Z (B @ Z)) = B @ E"
  proof -
    consider "Z = []" | "Z = ''Z''" | o4 where "digits 4 o4" "Z = CHR ''+'' # o4"
      | o4 where "digits 4 o4" "Z = o4"
      using Z by blast
    then show ?thesis
    proof cases
      case 1
      then have "strip_tz_offset (strip_trailing_Z (B @ Z)) = B @ []"
        using Bz by (simp add: strip_trailing_Z_absent strip_tz_offset_absent)
      with 1 show ?thesis by blast
    next
      case 2
      then have "strip_tz_offset (strip_trailing_Z (B @ Z)) = B @ []"
        using Bz by (simp add: strip_trailing_Z_last strip_tz_offset_absent)
      then show ?thesis by blast
    next
      case 3
      have "CHR ''Z'' \<notin> set (B @ Z)" "CHR ''z'' \<notin> set (B @ Z)"
        using Bz 3 by (simp_all add: digits_def digits_not_in)
      then have "strip_trailing_Z (B @ Z) = B @ CHR ''+'' # o4"
        using 3 by (simp add: strip_trailing_Z_absent)
      then have "strip_tz_offset (strip_trailing_Z (B @ Z)) = B @ []"
        using 3 by (simp add: strip_tz_offset_last)
      then show ?thesis by blast
    next
      case 4
      have "CHR ''Z'' \<notin> set (B @ Z)" "CHR ''z'' \<notin> set (B @ Z)"
        "CHR ''+'' \<notin> set (B @ Z)" "CHR ''-'' \<notin> set (B @ Z)"
        using Bz 4 by (simp_all add: digits_def digits_not_in)
      then have "strip_tz_offset (strip_trailing_Z (B @ Z)) = B @ o4"
        using 4 by (simp add: strip_trailing_Z_absent strip_tz_offset_absent)
      with 4 show ?thesis by (cases "Z = []") (auto simp: digits_def)
    qed
  qed
  then obtain E where E: "E = [] \<or> digits 4 E" "Z = [] \<longrightarrow> E = []"
    "strip_tz_offset (strip_trailing_Z (B @ Z)) = B @ E"
    by blast
  have Ed: "list_all is_digit E" using E(1) by (auto simp: digits_def)
  show ?thesis
  proof (cases f)
    case None
    have "CHR ''.'' \<notin> set (B @ E)"
      using D H(2) Ed None by (simp add: B_def digits_def digits_not_in)
    then have "strip_fraction (B @ E) = D @ CHR ''T'' # (H @ E)"
      using None by (simp add: strip_fraction_absent B_def)
    moreover have "list_all is_digit (H @ E)" using H(2) Ed by simp
    ultimately have "list_all is_digit (H @ E) \<and> (f = None \<and> Z = [] \<longrightarrow> H @ E = H) \<and>
        strip_fraction (strip_tz_offset (strip_trailing_Z
          (D @ CHR ''T'' # H @ render_fraction f @ Z))) = D @ CHR ''T'' # (H @ E)"
      using E(2,3) by (simp add: B_def)
    then show ?thesis by blast
  next
    case (Some fr)
    then have fr: "fr \<noteq> []" "list_all is_digit fr" using f by simp_all
    have fe: "fr @ E \<noteq> []" "list_all is_digit (fr @ E)" using fr Ed by simp_all
    have "strip_fraction ((D @ CHR ''T'' # H) @ CHR ''.'' # (fr @ E)) = D @ CHR ''T'' # H"
      using fe by (rule strip_fraction_decomp)
    moreover have "B @ E = (D @ CHR ''T'' # H) @ CHR ''.'' # (fr @ E)"
      using Some by (simp add: B_def)
    ultimately have "strip_fraction (B @ E) = D @ CHR ''T'' # H"
      by (simp only:)
    then have "list_all is_digit H \<and> (f = None \<and> Z = [] \<longrightarrow> H = H) \<and>
        strip_fraction (strip_tz_offset (strip_trailing_Z
          (D @ CHR ''T'' # H @ render_fraction f @ Z))) = D @ CHR ''T'' # H"
      using E(3) H(2) by (simp add: B_def)
    then show ?thesis by blast
  qed
qed

lemma normalize_cleaned:
  assumes "digits 8 D" "H \<noteq> []" "list_all is_digit H" "wf_fraction f"
    and "Z = [] \<or> Z = ''Z'' \<or> (\<exists>o4. digits 4 o4 \<and> (Z = CHR ''+'' # o4 \<or> Z = o4))"
    and "cleanup s = D @ CHR ''T'' # H @ render_fraction f @ Z"
  shows "\<exists>H'. list_all is_digit H' \<and> (f = None \<and> Z = [] \<longrightarrow> H' = H) \<and>
           normalizeCalDate_str s = D @ CHR ''T'' # padEnd 6 CHR ''0'' (take 6 H')"
proof -
  obtain H' where H': "list_all is_digit H'" "f = None \<and> Z = [] \<longrightarrow> H' = H"
    "strip_fraction (strip_tz_offset (strip_trailing_Z
       (D @ CHR ''T'' # H @ render_fraction f @ Z))) = D @ CHR ''T'' # H'"
    using strip_stages [OF assms(1-5)] by blast
  have "normalizeCalDate_str s = date_and_time (D @ CHR ''T'' # H')"
    using H'(3) assms(6) by (simp add: normalizeCalDate_str_eq cleanup_def)
  then have "normalizeCalDate_str s = D @ CHR ''T'' # padEnd 6 CHR ''0'' (take 6 H')"
    using assms(1) by (simp add: date_and_time_split)
  with H'(1,2) show ?thesis by blast
qed

lemma normalize_cleaned_date:
  assumes "digits 8 D" "cleanup s = D"
  shows "normalizeCalDate_str s = D @ ''T000000''"
proof -
  have "strip_fraction (strip_tz_offset (strip_trailing_Z D)) = D"
    using assms(1)
    by (simp add: digits_def digits_not_in strip_trailing_Z_absent strip_tz_offset_absent
          strip_fraction_absent)
  then show ?thesis
    using assms by (simp add: normalizeCalDate_str_eq cleanup_def [symmetric] date_and_time_date_only)
qed

lemma canonical_date_only: "digits 8 D \<Longrightarrow> canonical (D @ ''T000000'')"
  by (simp add: canonical_def digits_def nth_append is_digit_def)

lemma shape_canonical:
  assumes "wf_shape sh"
  shows "canonical (normalizeCalDate_str (render sh))"
proof (cases sh)
  case (DateOnly d)
  with assms obtain D where "digits 8 D" "cleanup (render sh) = D"
    using cleanup_date [of d] by auto
  then show ?thesis by (simp add: normalize_cleaned_date canonical_date_only)
next
  case (DateTime d t)
  obtain c colons f z where t: "t = TimeText c colons f z" by (cases t)
  with assms DateTime have w: "wf_date d" "wf_clock c" "wf_fraction f" "wf_zone z" by simp_all
  obtain D where D: "digits 8 D" "cleanup (render_date d) = D" using cleanup_date [OF w(1)] by blast
  obtain H where H: "H \<noteq> []" "list_all is_digit H" "cleanup (render_clock colons c) = H"
    using cleanup_clock [OF w(2)] by blast
  define Z where "Z = cleanup (render_zone z)"
  have Z: "Z = [] \<or> Z = ''Z'' \<or> (\<exists>o4. digits 4 o4 \<and> (Z = CHR ''+'' # o4 \<or> Z = o4))"
    unfolding Z_def using w(4) by (rule cleanup_zone)
  have "cleanup (render sh) = D @ CHR ''T'' # H @ render_fraction f @ Z"
    using D(2) H(3) w(3)
    by (simp add: DateTime t cleanup_append cleanup_Cons cleanup_fraction Z_def)
  from normalize_cleaned [OF D(1) H(1,2) w(3) Z this] obtain H' where
    "list_all is_digit H'" "normalizeCalDate_str (render sh) = D @ CHR ''T'' # padEnd 6 CHR ''0'' (take 6 H')"
    by blast
  then show ?thesis using D(1) by (simp add: canonical_result)
qed

lemma canonical_fixed:
  assumes "canonical c"
  shows "normalizeCalDate_str c = c"
proof -
  define D where "D = take 8 c"
  define H where "H = drop 9 c"
  have c: "c = D @ CHR ''T'' # H"
    using assms id_take_nth_drop [of 8 c] by (simp add: canonical_def D_def H_def)
  have D: "digits 8 D" using assms by (simp add: canonical_def D_def digits_def)
  have H: "H \<noteq> []" "list_all is_digit H" "length H = 6"
    using assms by (auto simp: canonical_def H_def)
  have "cleanup c = D @ CHR ''T'' # H @ render_fraction None @ []"
    using D H(2) by (simp add: c cleanup_append cleanup_Cons cleanup_digits digits_def)
  from normalize_cleaned [OF D H(1,2) _ _ this] obtain H' where
    "H' = H" "normalizeCalDate_str c = D @ CHR ''T'' # padEnd 6 CHR ''0'' (take 6 H')"
    by auto
  then show ?thesis using H(3) c by (simp add: padEnd_def)
qed

text \<open>
  C8. \<^verbatim>\<open>normalizeCalDate\<close> is idempotent on every supported shape of date text
  (compact, with dashes and colons, with a trailing \<^verbatim>\<open>Z\<close>, with a signed offset, with
  a fraction of a second, with the time cut to hours or to hours and minutes, and
  date-only): the result is canonical, and a canonical string is returned unchanged.
\<close>

theorem normalizeCalDate_idempotent:
  "(wf_shape sh \<longrightarrow>
      (\<exists>c. normalizeCalDate (Some (JStr (render sh))) = Inr (Some (JStr c)) \<and> canonical c \<and>
           normalizeCalDate (Some (JStr c)) = Inr (Some (JStr c)))) \<and>
   (canonical s \<longrightarrow> normalizeCalDate (Some (JStr s)) = Inr (Some (JStr s)))"
proof -
  have fixed: "normalizeCalDate (Some (JStr c)) = Inr (Some (JStr c))" if "canonical c" for c
  proof -
    have "c \<noteq> []" using that by (auto simp: canonical_def)
    then show ?thesis using that by (simp add: normalizeCalDate_def canonical_fixed)
  qed
  have "\<exists>c. normalizeCalDate (Some (JStr (render sh))) = Inr (Some (JStr c)) \<and> canonical c \<and>
           normalizeCalDate (Some (JStr c)) = Inr (Some (JStr c))" if w: "wf_shape sh"
  proof -
    have "render sh \<noteq> []" using w
      by (cases sh; cases "case sh of DateOnly d \<Rightarrow> d | DateTime d t \<Rightarrow> d")
         (auto simp: digits_def)
    then have "normalizeCalDate (Some (JStr (render sh)))
        = Inr (Some (JStr (normalizeCalDate_str (render sh))))"
      by (simp add: normalizeCalDate_def)
    moreover have "canonical (normalizeCalDate_str (render sh))" using w by (rule shape_canonical)
    ultimately show ?thesis using fixed by blast
  qed
  with fixed show ?thesis by blast
qed

theorem normalizeCalDate_idempotent_witness:
  "wf_shape (DateTime (DateText ''2026'' ''02'' ''25'' True)
       (TimeText (HoursMinutes ''09'' ''30'') True (Some ''250'') (ZoneOffset CHR ''+'' ''05'' ''30'' False))) \<and>
   render (DateTime (DateText ''2026'' ''02'' ''25'' True)
       (TimeText (HoursMinutes ''09'' ''30'') True (Some ''250'') (ZoneOffset CHR ''+'' ''05'' ''30'' False)))
     = ''2026-02-25T09:30.250+0530'' \<and>
   normalizeCalDate (Some (JStr ''2026-02-25T09:30.250+0530'')) = Inr (Some (JStr ''20260225T093000'')) \<and>
   canonical ''20260225T093000'' \<and>
   normalizeCalDate (Some (JStr ''20260225T093000'')) = Inr (Some (JStr ''20260225T093000''))"
proof -
  have c: "canonical ''20260225T093000''" by (simp add: canonical_def is_digit_def)
  have n: "normalizeCalDate (Some (JStr ''2026-02-25T09:30.250+0530''))
      = Inr (Some (JStr ''20260225T093000''))"
    by code_simp
  have w: "wf_shape (DateTime (DateText ''2026'' ''02'' ''25'' True)
       (TimeText (HoursMinutes ''09'' ''30'') True (Some ''250'') (ZoneOffset CHR ''+'' ''05'' ''30'' False)))"
    by (simp add: digits_def is_digit_def)
  show ?thesis
    using c n w normalizeCalDate_idempotent [of
        "DateTime (DateText ''2026'' ''02'' ''25'' True)
           (TimeText (HoursMinutes ''09'' ''30'') True (Some ''250'') (ZoneOffset CHR ''+'' ''05'' ''30'' False))"
        "''20260225T093000''"]
    by simp
qed

section \<open>Properties of \<^verbatim>\<open>extractJSON\<close>\<close>

subsection \<open>What a fence replacement deletes\<close>

lemma is_space_not_brace: "is_space c \<Longrightarrow> c \<noteq> lbrace \<and> c \<noteq> rbrace"
  by (auto simp: is_space_def is_line_terminator_def)

lemma spaces_no_brace:
  "lbrace \<notin> set (takeWhile is_space s) \<and> rbrace \<notin> set (takeWhile is_space s)"
  using is_space_not_brace by (metis set_takeWhileD)

lemma json_tag_split:
  "json_tag r \<Longrightarrow> \<exists>m. r = m @ drop 4 r \<and> lbrace \<notin> set m \<and> rbrace \<notin> set m"
proof -
  assume j: "json_tag r"
  then obtain a b c d rest where r: "r = a # b # c # d # rest"
    by (auto simp: json_tag_def split: list.splits)
  with j have "r = [a, b, c, d] @ drop 4 r \<and> lbrace \<notin> set [a, b, c, d]
      \<and> rbrace \<notin> set [a, b, c, d]"
    by (auto simp: json_tag_def)
  then show ?thesis by blast
qed

lemma match_fence_open_deletes:
  assumes "match_fence_open s = Some r"
  shows "\<exists>m. s = m @ r \<and> lbrace \<notin> set m \<and> rbrace \<notin> set m"
proof -
  from assms have t: "take 3 s = backquotes"
    by (simp add: match_fence_open_def split: if_splits)
  define r1 where "r1 = drop 3 s"
  define r2 where "r2 = (if json_tag r1 then drop 4 r1 else r1)"
  from assms t have r: "r = dropWhile is_space r2"
    by (auto simp: match_fence_open_def r1_def r2_def Let_def split: if_splits)
  have s1: "s = backquotes @ r1" using t by (metis append_take_drop_id r1_def)
  obtain m2 where m2: "r1 = m2 @ r2" "lbrace \<notin> set m2" "rbrace \<notin> set m2"
  proof (cases "json_tag r1")
    case True
    then show ?thesis using json_tag_split [of r1] that by (auto simp: r2_def)
  next
    case False
    then show ?thesis using that [of "[]"] by (simp add: r2_def)
  qed
  have "r2 = takeWhile is_space r2 @ r" by (simp add: r)
  with s1 m2 have "s = (backquotes @ m2 @ takeWhile is_space r2) @ r" by simp
  moreover have "lbrace \<notin> set (backquotes @ m2 @ takeWhile is_space r2)"
    using m2 spaces_no_brace [of r2] by simp
  moreover have "rbrace \<notin> set (backquotes @ m2 @ takeWhile is_space r2)"
    using m2 spaces_no_brace [of r2] by simp
  ultimately show ?thesis by blast
qed

lemma from_last_terminator_suffix:
  "from_last_terminator ws = Some tail \<Longrightarrow>
     \<exists>m. ws = m @ tail \<and> tail \<noteq> [] \<and> is_line_terminator (hd tail)"
proof (induction ws)
  case Nil
  then show ?case by simp
next
  case (Cons c cs)
  show ?case
  proof (cases "from_last_terminator cs")
    case None
    with Cons.prems have "is_line_terminator c" "tail = c # cs"
      by (auto split: if_splits)
    then have "c # cs = [] @ tail \<and> tail \<noteq> [] \<and> is_line_terminator (hd tail)" by simp
    then show ?thesis by blast
  next
    case (Some r)
    with Cons.prems have "tail = r" by simp
    with Some Cons.IH obtain m where "cs = m @ tail" "tail \<noteq> []" "is_line_terminator (hd tail)"
      by blast
    then have "c # cs = (c # m) @ tail \<and> tail \<noteq> [] \<and> is_line_terminator (hd tail)" by simp
    then show ?thesis by blast
  qed
qed

lemma match_fence_close_deletes:
  assumes "match_fence_close s = Some r"
  shows "\<exists>m. s = m @ r \<and> lbrace \<notin> set m \<and> rbrace \<notin> set m
           \<and> (r = [] \<or> is_line_terminator (hd r))"
proof -
  define r1 where "r1 = dropWhile is_space s"
  define ws where "ws = takeWhile is_space (drop 3 r1)"
  define rest where "rest = dropWhile is_space (drop 3 r1)"
  have unfolded: "match_fence_close s =
      (if take 3 r1 = backquotes then
         (if rest = [] then Some []
          else (case from_last_terminator ws of
                  Some tail \<Rightarrow> Some (tail @ rest)
                | None \<Rightarrow> None))
       else None)"
    unfolding match_fence_close_def Let_def r1_def ws_def rest_def by (rule refl)
  have t: "take 3 r1 = backquotes"
  proof (rule ccontr)
    assume "take 3 r1 \<noteq> backquotes"
    then have "match_fence_close s = None" by (simp add: unfolded)
    with assms show False by simp
  qed
  have "r1 = take 3 r1 @ drop 3 r1" by simp
  then have "r1 = backquotes @ drop 3 r1" by (simp only: t)
  moreover have "drop 3 r1 = ws @ rest" by (simp add: ws_def rest_def)
  moreover have "s = takeWhile is_space s @ r1" by (simp add: r1_def)
  ultimately have s1: "s = takeWhile is_space s @ backquotes @ ws @ rest" by simp
  have nbs: "lbrace \<notin> set (takeWhile is_space s)" "rbrace \<notin> set (takeWhile is_space s)"
    using spaces_no_brace [of s] by simp_all
  have nbw: "lbrace \<notin> set ws" "rbrace \<notin> set ws"
    using spaces_no_brace [of "drop 3 r1"] by (simp_all add: ws_def)
  show ?thesis
  proof (cases "rest = []")
    case True
    then have "match_fence_close s = Some []" by (simp add: unfolded t)
    with assms have r: "r = []" by simp
    define m where "m = takeWhile is_space s @ backquotes @ ws"
    have "s = m @ r" using s1 True r by (simp add: m_def)
    moreover have "lbrace \<notin> set m" "rbrace \<notin> set m"
      using nbs nbw by (simp_all add: m_def)
    ultimately show ?thesis using r by blast
  next
    case False
    then have u: "match_fence_close s =
        (case from_last_terminator ws of Some tail \<Rightarrow> Some (tail @ rest) | None \<Rightarrow> None)"
      by (simp add: unfolded t)
    obtain tail where tail: "from_last_terminator ws = Some tail" "r = tail @ rest"
    proof (cases "from_last_terminator ws")
      case None
      with u assms show ?thesis by simp
    next
      case (Some x)
      with u assms that show ?thesis by simp
    qed
    then obtain m0 where m0: "ws = m0 @ tail" "tail \<noteq> []" "is_line_terminator (hd tail)"
      using from_last_terminator_suffix by blast
    define m where "m = takeWhile is_space s @ backquotes @ m0"
    have "set m0 \<subseteq> set ws" using m0 by auto
    with nbs nbw have "lbrace \<notin> set m" "rbrace \<notin> set m"
      by (auto simp: m_def)
    moreover have "s = m @ r"
    proof -
      have "s = takeWhile is_space s @ backquotes @ (m0 @ tail) @ rest"
        using s1 by (simp only: m0)
      then show ?thesis by (simp add: m_def tail)
    qed
    moreover have "is_line_terminator (hd r)" using m0 tail by simp
    ultimately show ?thesis by blast
  qed
qed

subsection \<open>The replacements and \<^verbatim>\<open>trim\<close> keep the braces\<close>

lemma braces_append: "braces (a @ b) = braces a @ braces b"
  by (simp add: braces_def)

lemma braces_none: "lbrace \<notin> set m \<Longrightarrow> rbrace \<notin> set m \<Longrightarrow> braces m = []"
  by (induction m) (auto simp: braces_def)

lemma braces_replace_fence_open: "braces (replace_fence_open b s) = braces s"
proof (induction s arbitrary: b)
  case Nil
  show ?case by simp
next
  case (Cons c cs)
  show ?case
  proof (cases "if b then match_fence_open (c # cs) else None")
    case None
    then show ?thesis using Cons by (simp add: braces_def)
  next
    case (Some r)
    then have "match_fence_open (c # cs) = Some r" by (simp split: if_splits)
    then obtain m where "c # cs = m @ r" "lbrace \<notin> set m" "rbrace \<notin> set m"
      using match_fence_open_deletes by blast
    then have "braces (c # cs) = braces r"
      by (metis braces_append braces_none append_Nil)
    with Some show ?thesis by simp
  qed
qed

lemma braces_replace_fence_close: "braces (replace_fence_close s) = braces s"
proof (induction s)
  case Nil
  show ?case by simp
next
  case (Cons c cs)
  show ?case
  proof (cases "match_fence_close (c # cs)")
    case None
    then show ?thesis using Cons by (simp add: braces_def)
  next
    case (Some r)
    then obtain m where "c # cs = m @ r" "lbrace \<notin> set m" "rbrace \<notin> set m"
      using match_fence_close_deletes by blast
    then have "braces (c # cs) = braces r"
      by (metis braces_append braces_none append_Nil)
    with Some show ?thesis by simp
  qed
qed

lemma braces_dropWhile_space: "braces (dropWhile is_space s) = braces s"
  using is_space_not_brace by (induction s) (auto simp: braces_def)

lemma braces_rev: "braces (rev s) = rev (braces s)"
  by (simp add: braces_def rev_filter)

lemma braces_trim: "braces (trim s) = braces s"
  by (simp add: trim_def braces_rev braces_dropWhile_space)

lemma braces_fenced:
  "braces (trim (replace_fence_close (replace_fence_open True text))) = braces text"
  by (simp add: braces_trim braces_replace_fence_close braces_replace_fence_open)

lemma open_brace_in_braces: "lbrace \<in> set (braces s) \<longleftrightarrow> lbrace \<in> set s"
  by (auto simp: braces_def)

lemma braces_from_first_open:
  "braces (dropWhile (\<lambda>c. c \<noteq> lbrace) s) = dropWhile (\<lambda>c. c \<noteq> lbrace) (braces s)"
  by (induction s) (auto simp: braces_def)

subsection \<open>The scan depends on the braces only\<close>

lemma closes_braces: "closes d (braces s) = closes d s"
  by (induction s arbitrary: d) (auto simp: braces_def)

lemma scan_braces_None: "scan_braces d i s = None \<longleftrightarrow> \<not> closes d s"
  by (induction s arbitrary: d i) auto

lemma indexOf_drop:
  "indexOf c s = Some i \<Longrightarrow> drop i s = dropWhile (\<lambda>x. x \<noteq> c) s"
  by (auto simp: indexOf_def dropWhile_eq_drop split: if_splits)

lemma extractJSON_no_open:
  assumes "lbrace \<notin> set text"
  shows "extractJSON text = Inl NoJsonFound"
proof -
  define fenced where "fenced = trim (replace_fence_close (replace_fence_open True text))"
  have "lbrace \<notin> set fenced"
    using assms braces_fenced [of "text"] open_brace_in_braces [of fenced]
      open_brace_in_braces [of "text"]
    by (simp add: fenced_def)
  then have "indexOf lbrace fenced = None" by (simp add: indexOf_def)
  then show ?thesis by (simp add: extractJSON_def fenced_def)
qed

lemma extractJSON_never_closed:
  assumes "never_closed text"
  shows "extractJSON text = Inl UnclosedJson"
proof -
  define fenced where "fenced = trim (replace_fence_close (replace_fence_open True text))"
  have b: "braces fenced = braces text" by (simp add: fenced_def braces_fenced)
  from assms have "lbrace \<in> set fenced"
    using open_brace_in_braces [of fenced] open_brace_in_braces [of "text"] b
    by (simp add: never_closed_def)
  then obtain start where start: "indexOf lbrace fenced = Some start"
    by (simp add: indexOf_def)
  then have d: "drop start fenced = dropWhile (\<lambda>c. c \<noteq> lbrace) fenced"
    by (rule indexOf_drop)
  have "closes 0 (drop start fenced) = closes 0 (braces (drop start fenced))"
    by (simp add: closes_braces)
  also have "\<dots> = closes 0 (dropWhile (\<lambda>c. c \<noteq> lbrace) (braces text))"
    by (simp add: d braces_from_first_open b)
  also have "\<dots> = closes 0 (braces (dropWhile (\<lambda>c. c \<noteq> lbrace) text))"
    by (simp add: braces_from_first_open)
  also have "\<dots> = closes 0 (dropWhile (\<lambda>c. c \<noteq> lbrace) text)"
    by (simp add: closes_braces)
  finally have "\<not> closes 0 (drop start fenced)"
    using assms by (simp add: never_closed_def)
  then have "scan_braces 0 start (drop start fenced) = None"
    by (simp add: scan_braces_None)
  with start show ?thesis by (simp add: extractJSON_def fenced_def)
qed

text \<open>
  C6. \<^verbatim>\<open>extractJSON\<close> applied to a text with no opening brace fails with the
  "No JSON object found" error; applied to a text whose first opening brace is never
  matched by a closing brace at depth zero it fails with the "Unclosed JSON object"
  error, as for \<^verbatim>\<open>{"a":1\<close>. No value is returned in either case.
\<close>

theorem extractJSON_failures:
  \<open>(lbrace \<notin> set text \<longrightarrow> extractJSON text = Inl NoJsonFound) \<and>
   (never_closed text \<longrightarrow> extractJSON text = Inl UnclosedJson) \<and>
   extractJSON (units ''{"a":1'') = Inl UnclosedJson\<close>
proof -
  have \<open>never_closed (units ''{"a":1'')\<close> by (simp add: never_closed_def)
  then have \<open>extractJSON (units ''{"a":1'') = Inl UnclosedJson\<close> by (rule extractJSON_never_closed)
  then show ?thesis using extractJSON_no_open extractJSON_never_closed by blast
qed

theorem extractJSON_failures_witness:
  \<open>lbrace \<notin> set (units ''no braces here'') \<and>
   extractJSON (units ''no braces here'') = Inl NoJsonFound \<and>
   never_closed (units ''{"outer":{"inner":42},"x":1'') \<and>
   extractJSON (units ''{"outer":{"inner":42},"x":1'') = Inl UnclosedJson\<close>
proof -
  have a: \<open>lbrace \<notin> set (units ''no braces here'')\<close> by simp
  have b: \<open>never_closed (units ''{"outer":{"inner":42},"x":1'')\<close> by (simp add: never_closed_def)
  show ?thesis
    using a b extractJSON_failures [of "units ''no braces here''"]
      extractJSON_failures [of \<open>units ''{"outer":{"inner":42},"x":1''\<close>]
    by blast
qed

subsection \<open>A balanced object survives the replacements\<close>

lemma append_split_before:
  assumes "p @ t @ s = m @ r" "t \<noteq> []" "hd t \<notin> set m"
  shows "\<exists>u. p = m @ u \<and> r = u @ t @ s"
proof -
  from assms(1) obtain u where u: "(p = m @ u \<and> u @ t @ s = r) \<or> (p @ u = m \<and> t @ s = u @ r)"
    by (auto simp: append_eq_append_conv2)
  show ?thesis
  proof (cases "p = m @ u \<and> u @ t @ s = r")
    case True
    then show ?thesis by blast
  next
    case False
    with u have v: "p @ u = m" "t @ s = u @ r" by blast+
    have "u = []"
    proof (rule ccontr)
      assume "u \<noteq> []"
      with v(2) assms(2) have "hd u = hd t" by (cases u; cases t) auto
      with \<open>u \<noteq> []\<close> v(1) have "hd t \<in> set m" by (cases u) auto
      with assms(3) show False by simp
    qed
    with v have "p = m @ [] \<and> r = [] @ t @ s" by simp
    then show ?thesis by blast
  qed
qed

lemma scan_braces_bounds:
  "scan_braces d i s = Some e \<Longrightarrow> i \<le> e \<and> e < i + length s \<and> s ! (e - i) = rbrace"
proof (induction s arbitrary: d i)
  case Nil
  then show ?case by simp
next
  case (Cons c cs)
  have step: "i \<le> e \<and> e < i + length (c # cs) \<and> (c # cs) ! (e - i) = rbrace"
    if "scan_braces d' (i + 1) cs = Some e" for d'
  proof -
    from Cons.IH [OF that] have "i + 1 \<le> e" "e < i + 1 + length cs"
      "cs ! (e - (i + 1)) = rbrace"
      by simp_all
    moreover from this have "(c # cs) ! (e - i) = cs ! (e - (i + 1))"
      by (simp add: nth_Cons')
    ultimately show ?thesis by simp
  qed
  show ?case
  proof (cases "c = lbrace")
    case True
    with Cons.prems show ?thesis using step [of "d + 1"] by simp
  next
    case False
    show ?thesis
    proof (cases "c = rbrace")
      case True
      show ?thesis
      proof (cases "d - 1 = 0")
        case True
        with \<open>c = rbrace\<close> Cons.prems show ?thesis by simp
      next
        case False
        with \<open>c = rbrace\<close> Cons.prems show ?thesis using step [of "d - 1"] by simp
      qed
    next
      case False
      with \<open>c \<noteq> lbrace\<close> Cons.prems show ?thesis using step [of d] by simp
    qed
  qed
qed

lemma object_text_last: "object_text t \<Longrightarrow> last t = rbrace"
proof -
  assume o: "object_text t"
  then have "scan_braces 0 0 t = Some (length t - 1)" "t \<noteq> []"
    by (simp_all add: object_text_def)
  then show ?thesis using scan_braces_bounds [of 0 0 t "length t - 1"]
    by (simp add: last_conv_nth)
qed

lemma object_text_no_terminator: "object_text t \<Longrightarrow> c \<in> set t \<Longrightarrow> \<not> is_line_terminator c"
  by (simp add: object_text_def list_all_iff)

lemma match_fence_open_brace: "match_fence_open (lbrace # cs) = None"
  by (simp add: match_fence_open_def)

lemma replace_fence_open_inside:
  "\<forall>c \<in> set t. \<not> is_line_terminator c \<Longrightarrow>
     replace_fence_open False (t @ s) = t @ replace_fence_open False s"
  by (induction t) auto

lemma replace_fence_open_keeps:
  assumes "object_text t"
  shows "lbrace \<notin> set p \<Longrightarrow>
     \<exists>p' s'. replace_fence_open b (p @ t @ s) = p' @ t @ s' \<and> lbrace \<notin> set p'"
proof (induction p arbitrary: b)
  case Nil
  from assms obtain t1 where t: "t = lbrace # t1"
    by (cases t) (auto simp: object_text_def)
  have "\<forall>c \<in> set t1. \<not> is_line_terminator c"
    using assms t object_text_no_terminator by auto
  then have "replace_fence_open b (t @ s) = t @ replace_fence_open False s"
    using t by (simp add: match_fence_open_brace replace_fence_open_inside is_line_terminator_def)
  then have "replace_fence_open b ([] @ t @ s) = [] @ t @ replace_fence_open False s
      \<and> lbrace \<notin> set []"
    by simp
  then show ?case by blast
next
  case (Cons x p)
  show ?case
  proof (cases "if b then match_fence_open ((x # p) @ t @ s) else None")
    case None
    from Cons.prems have np: "lbrace \<notin> set p" "x \<noteq> lbrace" by auto
    from Cons.IH [OF np(1)] obtain p' s' where ih:
      "replace_fence_open (is_line_terminator x) (p @ t @ s) = p' @ t @ s'" "lbrace \<notin> set p'"
      by blast
    have "replace_fence_open b (x # p @ t @ s) = x # p' @ t @ s'"
      using None ih(1) by (cases b) simp_all
    then have "replace_fence_open b ((x # p) @ t @ s) = (x # p') @ t @ s'
        \<and> lbrace \<notin> set (x # p')"
      using ih(2) np(2) by simp
    then show ?thesis by blast
  next
    case (Some r)
    then have m: "match_fence_open ((x # p) @ t @ s) = Some r" by (simp split: if_splits)
    then obtain m where m2: "(x # p) @ t @ s = m @ r" "lbrace \<notin> set m"
      using match_fence_open_deletes by blast
    moreover have "t \<noteq> []" "hd t = lbrace" using assms by (simp_all add: object_text_def)
    ultimately obtain u where u: "x # p = m @ u" "r = u @ t @ s"
      using append_split_before [of "x # p" t s m r] by auto
    then have "set (x # p) = set m \<union> set u" by (metis set_append)
    with Cons.prems have "lbrace \<notin> set u" by blast
    moreover have "replace_fence_open b ((x # p) @ t @ s) = u @ t @ s"
    proof -
      from Some have "b" "match_fence_open (x # p @ t @ s) = Some r"
        by (auto split: if_splits)
      then have "replace_fence_open b (x # p @ t @ s) = r" by simp
      then show ?thesis using u(2) by simp
    qed
    ultimately show ?thesis by blast
  qed
qed

lemma match_fence_close_inside:
  assumes "t \<noteq> []" "last t = rbrace" "\<forall>c \<in> set t. \<not> is_line_terminator c"
  shows "match_fence_close (t @ s) = None"
proof (rule ccontr)
  assume "match_fence_close (t @ s) \<noteq> None"
  then obtain r where "match_fence_close (t @ s) = Some r" by blast
  then obtain m where m: "t @ s = m @ r" "rbrace \<notin> set m" "r = [] \<or> is_line_terminator (hd r)"
    using match_fence_close_deletes by blast
  from m(1) obtain u where u: "(t = m @ u \<and> u @ s = r) \<or> (t @ u = m \<and> s = u @ r)"
    by (auto simp: append_eq_append_conv2)
  have "rbrace \<in> set t" using assms(1,2) by (metis last_in_set)
  with m(2) u have v: "t = m @ u" "u @ s = r" "u \<noteq> []" by auto
  then have "r \<noteq> []" "hd r \<in> set t" by (cases u; auto)+
  with m(3) assms(3) show False by blast
qed

lemma replace_fence_close_inside:
  "t = [] \<or> (last t = rbrace \<and> (\<forall>c \<in> set t. \<not> is_line_terminator c)) \<Longrightarrow>
     replace_fence_close (t @ s) = t @ replace_fence_close s"
proof (induction t)
  case Nil
  show ?case by simp
next
  case (Cons c t)
  then have a: "last (c # t) = rbrace" "\<forall>x \<in> set (c # t). \<not> is_line_terminator x" by simp_all
  then have "match_fence_close ((c # t) @ s) = None"
    using match_fence_close_inside [of "c # t" s] by simp
  moreover have "t = [] \<or> (last t = rbrace \<and> (\<forall>c \<in> set t. \<not> is_line_terminator c))"
    using a by (cases t) auto
  ultimately show ?case using Cons.IH by simp
qed

lemma replace_fence_close_keeps:
  assumes "object_text t"
  shows "lbrace \<notin> set p \<Longrightarrow>
     \<exists>p' s'. replace_fence_close (p @ t @ s) = p' @ t @ s' \<and> lbrace \<notin> set p'"
proof (induction p)
  case Nil
  have "replace_fence_close (t @ s) = t @ replace_fence_close s"
    using assms object_text_last object_text_no_terminator
    by (intro replace_fence_close_inside) blast
  then have "replace_fence_close ([] @ t @ s) = [] @ t @ replace_fence_close s
      \<and> lbrace \<notin> set []"
    by simp
  then show ?case by blast
next
  case (Cons x p)
  show ?case
  proof (cases "match_fence_close ((x # p) @ t @ s)")
    case None
    from Cons.prems have np: "lbrace \<notin> set p" "x \<noteq> lbrace" by auto
    from Cons.IH [OF np(1)] obtain p' s' where ih:
      "replace_fence_close (p @ t @ s) = p' @ t @ s'" "lbrace \<notin> set p'"
      by blast
    have "replace_fence_close (x # p @ t @ s) = x # p' @ t @ s'"
      using None ih(1) by simp
    then have "replace_fence_close ((x # p) @ t @ s) = (x # p') @ t @ s'
        \<and> lbrace \<notin> set (x # p')"
      using ih(2) np(2) by simp
    then show ?thesis by blast
  next
    case (Some r)
    then obtain m where m2: "(x # p) @ t @ s = m @ r" "lbrace \<notin> set m"
      using match_fence_close_deletes by blast
    moreover have "t \<noteq> []" "hd t = lbrace" using assms by (simp_all add: object_text_def)
    ultimately obtain u where u: "x # p = m @ u" "r = u @ t @ s"
      using append_split_before [of "x # p" t s m r] by auto
    then have "set (x # p) = set m \<union> set u" by (metis set_append)
    with Cons.prems have "lbrace \<notin> set u" by blast
    moreover have "replace_fence_close ((x # p) @ t @ s) = u @ t @ s"
    proof -
      have "replace_fence_close (x # p @ t @ s) = r" using Some by simp
      then show ?thesis using u(2) by simp
    qed
    ultimately show ?thesis by blast
  qed
qed

lemma dropWhile_space_before:
  assumes "t \<noteq> []" "\<not> is_space (hd t)"
  shows "dropWhile is_space (p @ t @ s) = dropWhile is_space p @ t @ s"
proof (induction p)
  case Nil
  from assms show ?case by (cases t) auto
next
  case (Cons x p)
  then show ?case by simp
qed

lemma trim_keeps:
  assumes "object_text t" "lbrace \<notin> set p"
  shows "\<exists>p' s'. trim (p @ t @ s) = p' @ t @ s' \<and> lbrace \<notin> set p'"
proof -
  have t: "t \<noteq> []" "\<not> is_space (hd t)" "\<not> is_space (last t)"
    using assms(1) object_text_last [of t]
    by (auto simp: object_text_def is_space_def is_line_terminator_def)
  define p' where "p' = dropWhile is_space p"
  define s' where "s' = dropWhile is_space (rev s)"
  have a: "dropWhile is_space (p @ t @ s) = p' @ t @ s"
    unfolding p'_def using t(1,2) by (rule dropWhile_space_before)
  have rt: "rev t \<noteq> []" "\<not> is_space (hd (rev t))" using t by (simp_all add: hd_rev)
  have b: "dropWhile is_space (rev s @ rev t @ rev p') = s' @ rev t @ rev p'"
    unfolding s'_def using rt by (rule dropWhile_space_before)
  have "trim (p @ t @ s) = rev (dropWhile is_space (rev s @ rev t @ rev p'))"
    by (simp add: trim_def a)
  also have "\<dots> = p' @ t @ rev s'" by (simp add: b)
  finally have "trim (p @ t @ s) = p' @ t @ rev s'" .
  moreover have "lbrace \<notin> set p'"
    using assms(2) set_dropWhileD [of "lbrace" is_space p] by (auto simp: p'_def)
  ultimately show ?thesis by blast
qed

lemma scan_braces_shift: "scan_braces d i s = map_option (\<lambda>e. e + i) (scan_braces d 0 s)"
proof (induction s arbitrary: d i)
  case Nil
  show ?case by simp
next
  case (Cons c cs)
  have "scan_braces d' (i + 1) cs = map_option (\<lambda>e. e + i) (scan_braces d' (0 + 1) cs)" for d'
    using Cons [of d' "i + 1"] Cons [of d' "0 + 1"]
    by (cases "scan_braces d' 0 cs") simp_all
  then show ?case by simp
qed

lemma scan_braces_append: "scan_braces d i t = Some e \<Longrightarrow> scan_braces d i (t @ s) = Some e"
  by (induction t arbitrary: d i) (auto split: if_splits)

lemma extractJSON_of_fenced:
  assumes "object_text t" "lbrace \<notin> set p" "fenced = p @ t @ s"
  shows "(case indexOf lbrace fenced of
            None \<Rightarrow> Inl NoJsonFound
          | Some start \<Rightarrow>
              (case scan_braces 0 start (drop start fenced) of
                 None \<Rightarrow> Inl UnclosedJson
               | Some end \<Rightarrow> Inr (take (end + 1 - start) (drop start fenced)))) = Inr t"
proof -
  from assms(1) obtain t1 where t: "t = lbrace # t1" by (cases t) (auto simp: object_text_def)
  have tw: "takeWhile (\<lambda>x. x \<noteq> lbrace) fenced = p"
    unfolding assms(3) t using assms(2) by (subst takeWhile_append2) auto
  then have i: "indexOf lbrace fenced = Some (length p)"
    using assms(3) t by (simp add: indexOf_def)
  have d: "drop (length p) fenced = t @ s" by (simp add: assms(3))
  have "scan_braces 0 0 (t @ s) = Some (length t - 1)"
    using assms(1) by (intro scan_braces_append) (simp add: object_text_def)
  then have sc: "scan_braces 0 (length p) (t @ s) = Some (length t - 1 + length p)"
    by (subst scan_braces_shift) simp
  have "length t - 1 + length p + 1 - length p = length t" using t by simp
  then show ?thesis by (simp add: i d sc)
qed

lemma extractJSON_object_text:
  assumes "object_text t" "lbrace \<notin> set p"
  shows "extractJSON (p @ t @ s) = Inr t"
proof -
  obtain p1 s1 where a: "replace_fence_open True (p @ t @ s) = p1 @ t @ s1" "lbrace \<notin> set p1"
    using replace_fence_open_keeps [OF assms] by blast
  obtain p2 s2 where b: "replace_fence_close (p1 @ t @ s1) = p2 @ t @ s2" "lbrace \<notin> set p2"
    using replace_fence_close_keeps [OF assms(1) a(2)] by blast
  obtain p3 s3 where c: "trim (p2 @ t @ s2) = p3 @ t @ s3" "lbrace \<notin> set p3"
    using trim_keeps [OF assms(1) b(2)] by blast
  have "trim (replace_fence_close (replace_fence_open True (p @ t @ s))) = p3 @ t @ s3"
    by (simp add: a b c)
  then show ?thesis
    unfolding extractJSON_def Let_def
    using extractJSON_of_fenced [OF assms(1) c(2)] by simp
qed

subsection \<open>A stringified object is a balanced object on one line\<close>

lemma passes_Nil: "passes []"
  by (simp add: passes_def)

lemma passes_safe: "list_all safe s \<Longrightarrow> passes s"
proof (induction s)
  case Nil
  show ?case by (rule passes_Nil)
next
  case (Cons c s)
  then have "passes s" "c \<noteq> lbrace" "c \<noteq> rbrace" by (auto simp: safe_def)
  then show ?case by (simp add: passes_def)
qed

lemma one_line_safe: "list_all safe s \<Longrightarrow> one_line s"
  by (auto simp: one_line_def safe_def list_all_iff)

lemma passes_append: "passes a \<Longrightarrow> passes b \<Longrightarrow> passes (a @ b)"
  by (simp add: passes_def add.assoc)

lemma passes_braced:
  assumes "passes inner"
  shows "passes (lbrace # inner @ [rbrace])"
  unfolding passes_def
proof (intro allI impI)
  fix d :: int and i rest
  assume d: "1 \<le> d"
  have "scan_braces d i ((lbrace # inner @ [rbrace]) @ rest)
      = scan_braces (d + 1) (i + 1) (inner @ (rbrace # rest))"
    by simp
  also have "\<dots> = scan_braces (d + 1) (i + 1 + length inner) (rbrace # rest)"
    using assms d by (simp add: passes_def)
  also have "\<dots> = scan_braces d (i + length (lbrace # inner @ [rbrace])) rest"
    using d by simp
  finally show "scan_braces d i ((lbrace # inner @ [rbrace]) @ rest)
      = scan_braces d (i + length (lbrace # inner @ [rbrace])) rest" .
qed

lemma join_comma_Cons:
  "join_comma (x # xs) = (if xs = [] then x else x @ units '','' @ join_comma xs)"
  by (cases xs) simp_all

lemma safe_comma: "list_all safe (units '','')"
  by (simp add: safe_def is_line_terminator_def)

lemma passes_join:
  assumes "passes x" "passes (join_comma xs)"
  shows "passes (join_comma (x # xs))"
proof (cases "xs = []")
  case True
  with assms show ?thesis by simp
next
  case False
  have "passes (units '','')" using safe_comma by (rule passes_safe)
  with assms have "passes (x @ units '','' @ join_comma xs)"
    by (intro passes_append)
  with False show ?thesis by (simp only: join_comma_Cons if_False)
qed

lemma one_line_append: "one_line (a @ b) \<longleftrightarrow> one_line a \<and> one_line b"
  by (simp add: one_line_def)

lemma one_line_join:
  assumes "one_line x" "one_line (join_comma xs)"
  shows "one_line (join_comma (x # xs))"
proof (cases "xs = []")
  case True
  with assms show ?thesis by simp
next
  case False
  have "one_line (units '','')" using safe_comma by (rule one_line_safe)
  with assms have "one_line (x @ units '','' @ join_comma xs)"
    by (simp only: one_line_append)
  with False show ?thesis by (simp only: join_comma_Cons if_False)
qed

text \<open>The tokens: digits, escapes, and the code units that a string may hold.\<close>

lemma digit_char_safe: "n < 16 \<Longrightarrow> safe (of_char (digit_char n))"
proof -
  assume "n < 16"
  then have "digit_char n \<in> set ''0123456789abcdef''"
    unfolding digit_char_def by (intro nth_mem) simp
  moreover have "\<forall>c \<in> set ''0123456789abcdef''. safe (of_char c)"
    by (simp add: safe_def is_line_terminator_def)
  ultimately show ?thesis by blast
qed

lemma decimal_safe: "c \<in> set (decimal n) \<Longrightarrow> safe (of_char c)"
proof (induction n rule: decimal.induct)
  case (1 n)
  show ?case
  proof (cases "n < 10")
    case True
    then have "safe (of_char (digit_char n))" by (intro digit_char_safe) simp
    with True 1(2) show ?thesis by (subst (asm) decimal.simps) simp
  next
    case False
    have "safe (of_char (digit_char (n mod 10)))" by (intro digit_char_safe) simp
    with False 1 show ?thesis by (subst (asm) (2) decimal.simps) auto
  qed
qed

lemma number_text_safe: "list_all safe (number_text n)"
proof -
  have "safe (of_char CHR ''-'')" by (simp add: safe_def is_line_terminator_def)
  then show ?thesis using decimal_safe by (auto simp: number_text_def list_all_iff)
qed

lemma unicode_escape_safe: "list_all safe (unicode_escape c)"
proof -
  have "safe (of_char (digit_char (k mod 16)))" for k by (intro digit_char_safe) simp
  moreover have "safe 0x5C" "safe (of_char CHR ''u'')"
    by (simp_all add: safe_def is_line_terminator_def)
  ultimately show ?thesis by (simp add: unicode_escape_def)
qed

lemma quote_char_safe:
  assumes "c \<noteq> lbrace" "c \<noteq> rbrace" "c \<noteq> 0x2028" "c \<noteq> 0x2029"
  shows "list_all safe (quote_char c)"
proof -
  have a: "safe 0x5C" "safe 0x22" "safe (of_char CHR ''b'')" "safe (of_char CHR ''f'')"
    "safe (of_char CHR ''n'')" "safe (of_char CHR ''r'')" "safe (of_char CHR ''t'')"
    by (simp_all add: safe_def is_line_terminator_def)
  have b: "safe c" if "c \<noteq> 0x0A" "c \<noteq> 0x0D"
    using that assms by (simp add: safe_def is_line_terminator_def)
  show ?thesis unfolding quote_char_def using a b unicode_escape_safe [of c] by simp
qed

lemma surrogate_safe: "is_lead_surrogate c \<or> is_trail_surrogate c \<Longrightarrow> safe c"
  by (auto simp: is_lead_surrogate_def is_trail_surrogate_def safe_def is_line_terminator_def)

lemma plain_Cons:
  "plain (c # s) \<longleftrightarrow> c \<noteq> lbrace \<and> c \<noteq> rbrace \<and> c \<noteq> 0x2028 \<and> c \<noteq> 0x2029 \<and> plain s"
  by (auto simp: plain_def)

lemma quote_chars_safe: "plain s \<Longrightarrow> list_all safe (quote_chars s)"
proof (induction s rule: quote_chars.induct)
  case 1
  show ?case by simp
next
  case (2 c)
  then show ?case by (simp add: plain_Cons quote_char_safe)
next
  case (3 c d cs)
  from 3(3) have p: "plain (d # cs)" "plain cs" by (simp_all add: plain_Cons)
  have c: "list_all safe (quote_char c)" using 3(3) by (simp add: plain_Cons quote_char_safe)
  show ?case
  proof (cases "is_lead_surrogate c \<and> is_trail_surrogate d")
    case True
    then have "safe c" "safe d" using surrogate_safe by blast+
    moreover have "list_all safe (quote_chars cs)" using 3(1) True p(2) by simp
    ultimately show ?thesis using True by simp
  next
    case False
    then have "list_all safe (quote_chars (d # cs))" using 3(2) p(1) by simp
    with c False show ?thesis by auto
  qed
qed

lemma quote_safe: "plain s \<Longrightarrow> list_all safe (quote s)"
proof -
  assume "plain s"
  then have "list_all safe (quote_chars s)" by (rule quote_chars_safe)
  moreover have "safe 0x22" by (simp add: safe_def is_line_terminator_def)
  ultimately show ?thesis by (simp add: quote_def)
qed

lemma safe_words:
  "list_all safe (units ''null'')" "list_all safe (units ''true'')"
  "list_all safe (units ''false'')" "list_all safe (units ''['')" "list_all safe (units '']'')"
  "list_all safe (units '':'')"
  by (simp_all add: safe_def is_line_terminator_def)

lemma stringify_passes:
  "plain_value v \<Longrightarrow> passes (stringify v)"
  "plain_elements xs \<Longrightarrow> passes (join_comma (stringify_elements xs))"
  "plain_members kvs \<Longrightarrow> passes (join_comma (stringify_members kvs))"
proof (induction v and xs and kvs rule: stringify_stringify_elements_stringify_members.induct)
  case 1
  show ?case using safe_words(1) by (simp only: stringify.simps passes_safe)
next
  case (2 b)
  show ?case using safe_words(2,3) by (cases b) (simp_all only: stringify.simps if_True if_False passes_safe)
next
  case (3 n)
  show ?case by (simp add: passes_safe number_text_safe)
next
  case (4 s)
  then show ?case by (simp add: passes_safe quote_safe)
next
  case (5 xs)
  then have "passes (join_comma (stringify_elements xs))" by simp
  moreover have "passes (units ''['')" using safe_words(4) by (rule passes_safe)
  moreover have "passes (units '']'')" using safe_words(5) by (rule passes_safe)
  ultimately have "passes (units ''['' @ join_comma (stringify_elements xs) @ units '']'')"
    by (intro passes_append)
  then show ?case by (simp only: stringify.simps)
next
  case (6 kvs)
  then have "passes (join_comma (stringify_members kvs))" by simp
  then show ?case using passes_braced by simp
next
  case 7
  show ?case by (simp add: passes_Nil)
next
  case (8 x xs)
  then show ?case by (simp add: passes_join)
next
  case 9
  show ?case by (simp add: passes_Nil)
next
  case (10 k v kvs)
  then have "passes (quote k)" "passes (stringify v)"
    by (simp_all add: passes_safe quote_safe)
  moreover have "passes (units '':'')" using safe_words(6) by (rule passes_safe)
  ultimately have "passes (quote k @ units '':'' @ stringify v)"
    by (intro passes_append)
  moreover have "passes (join_comma (stringify_members kvs))" using 10 by simp
  ultimately have "passes (join_comma ((quote k @ units '':'' @ stringify v) # stringify_members kvs))"
    by (rule passes_join)
  then show ?case by (simp only: stringify_members.simps)
qed

lemma stringify_one_line:
  "plain_value v \<Longrightarrow> one_line (stringify v)"
  "plain_elements xs \<Longrightarrow> one_line (join_comma (stringify_elements xs))"
  "plain_members kvs \<Longrightarrow> one_line (join_comma (stringify_members kvs))"
proof (induction v and xs and kvs rule: stringify_stringify_elements_stringify_members.induct)
  case 1
  show ?case using safe_words(1) by (simp only: stringify.simps one_line_safe)
next
  case (2 b)
  show ?case using safe_words(2,3) by (cases b) (simp_all only: stringify.simps if_True if_False one_line_safe)
next
  case (3 n)
  show ?case by (simp add: one_line_safe number_text_safe)
next
  case (4 s)
  then show ?case by (simp add: one_line_safe quote_safe)
next
  case (5 xs)
  then have "one_line (join_comma (stringify_elements xs))" by simp
  moreover have "one_line (units ''['')" using safe_words(4) by (rule one_line_safe)
  moreover have "one_line (units '']'')" using safe_words(5) by (rule one_line_safe)
  ultimately have "one_line (units ''['' @ join_comma (stringify_elements xs) @ units '']'')"
    by (simp only: one_line_append)
  then show ?case by (simp only: stringify.simps)
next
  case (6 kvs)
  then have "one_line (join_comma (stringify_members kvs))" by simp
  moreover have "one_line [lbrace]" "one_line [rbrace]"
    by (simp_all add: one_line_def is_line_terminator_def)
  ultimately have "one_line ([lbrace] @ join_comma (stringify_members kvs) @ [rbrace])"
    by (simp only: one_line_append)
  then show ?case by (simp only: stringify.simps)
next
  case 7
  show ?case by (simp add: one_line_def)
next
  case (8 x xs)
  then show ?case by (simp add: one_line_join)
next
  case 9
  show ?case by (simp add: one_line_def)
next
  case (10 k v kvs)
  then have "one_line (quote k)" "one_line (stringify v)"
    by (simp_all add: one_line_safe quote_safe)
  moreover have "one_line (units '':'')" using safe_words(6) by (rule one_line_safe)
  ultimately have "one_line (quote k @ units '':'' @ stringify v)"
    by (simp only: one_line_append)
  moreover have "one_line (join_comma (stringify_members kvs))" using 10 by simp
  ultimately have "one_line (join_comma ((quote k @ units '':'' @ stringify v) # stringify_members kvs))"
    by (rule one_line_join)
  then show ?case by (simp only: stringify_members.simps)
qed

lemma object_text_stringify:
  assumes "plain_value (JObj kvs)"
  shows "object_text (stringify (JObj kvs))"
proof -
  define inner where "inner = join_comma (stringify_members kvs)"
  have t: "stringify (JObj kvs) = lbrace # inner @ [rbrace]" by (simp add: inner_def)
  have p: "passes inner" using assms stringify_passes(3) by (simp add: inner_def)
  have "scan_braces 0 0 (lbrace # inner @ [rbrace]) = scan_braces 1 1 (inner @ [rbrace])" by simp
  also have "\<dots> = scan_braces 1 (1 + length inner) [rbrace]"
    using p by (simp add: passes_def)
  also have "\<dots> = Some (length (lbrace # inner @ [rbrace]) - 1)" by simp
  finally have "scan_braces 0 0 (stringify (JObj kvs)) = Some (length (stringify (JObj kvs)) - 1)"
    by (simp only: t)
  moreover have "list_all (\<lambda>c. \<not> is_line_terminator c) (stringify (JObj kvs))"
    using stringify_one_line(1) [OF assms] by (simp only: one_line_def)
  ultimately show ?thesis by (simp add: object_text_def t)
qed

text \<open>
  C1, as amended. For every JSON object, its numbers being integers, none of whose keys
  and string values holds a brace character or a line separator (U+2028, U+2029), and
  every raw text made of prose without an opening brace, the text of
  \<^verbatim>\<open>JSON.stringify\<close> of the object, bare or inside a Markdown code fence with or
  without the \<^verbatim>\<open>json\<close> tag, and anything after it, \<^verbatim>\<open>extractJSON\<close> returns exactly
  the stringified text. The texts are sequences of any code units. What \<^verbatim>\<open>JSON.parse\<close>
  makes of the returned text is not part of the statement.
\<close>

theorem extractJSON_stringified_object:
  assumes "plain_value (JObj kvs)" "lbrace \<notin> set prose"
  shows "extractJSON (prose @ stringify (JObj kvs) @ rest) = Inr (stringify (JObj kvs)) \<and>
         extractJSON (prose @ fence tagged (stringify (JObj kvs))) = Inr (stringify (JObj kvs))"
proof -
  have o: "object_text (stringify (JObj kvs))" using assms(1) by (rule object_text_stringify)
  have a: "extractJSON (prose @ stringify (JObj kvs) @ rest) = Inr (stringify (JObj kvs))"
    using o assms(2) by (rule extractJSON_object_text)
  define p where "p = prose @ backquotes @ (if tagged then units ''json'' else []) @ [0x0A]"
  have "lbrace \<notin> set p" using assms(2) by (simp add: p_def)
  with o have "extractJSON (p @ stringify (JObj kvs) @ [0x0A] @ backquotes)
      = Inr (stringify (JObj kvs))"
    by (rule extractJSON_object_text)
  then have "extractJSON (prose @ fence tagged (stringify (JObj kvs)))
      = Inr (stringify (JObj kvs))"
    by (simp add: p_def fence_def)
  with a show ?thesis by simp
qed

theorem extractJSON_stringified_object_witness:
  \<open>plain_value (JObj [(units ''summary'', JStr (units ''Test'')),
      (units ''forceAllDay'', JBool False)]) \<and>
   lbrace \<notin> set (units ''Here is the JSON: '') \<and>
   extractJSON (units ''Here is the JSON: ''
      @ fence True (stringify (JObj [(units ''summary'', JStr (units ''Test'')),
          (units ''forceAllDay'', JBool False)])))
     = Inr (units ''{"summary":"Test","forceAllDay":false}'')\<close>
proof -
  have a: "plain_value (JObj [(units ''summary'', JStr (units ''Test'')),
      (units ''forceAllDay'', JBool False)])"
    by (simp add: plain_def)
  have b: "lbrace \<notin> set (units ''Here is the JSON: '')" by simp
  have c: \<open>stringify (JObj [(units ''summary'', JStr (units ''Test'')),
      (units ''forceAllDay'', JBool False)])
      = units ''{"summary":"Test","forceAllDay":false}''\<close>
    by (simp add: quote_def quote_char_def is_lead_surrogate_def is_trail_surrogate_def)
  show ?thesis
    using a b extractJSON_stringified_object [OF a b, of "[]" True] by (simp only: c) simp
qed

text \<open>
  C1, as stated, fails: a brace inside a string value is counted by the scan. The text
  of \<^verbatim>\<open>JSON.stringify({a: "}"})\<close> is cut at the brace inside the string.
\<close>

theorem extractJSON_roundtrip_counterexample:
  \<open>stringify (JObj [(units ''a'', JStr (units ''}''))]) = units ''{"a":"}"}'' \<and>
   extractJSON (stringify (JObj [(units ''a'', JStr (units ''}''))])) = Inr (units ''{"a":"}'')\<close>
proof -
  have a: \<open>stringify (JObj [(units ''a'', JStr (units ''}''))]) = units ''{"a":"}"}''\<close>
    by (simp add: quote_def quote_char_def is_lead_surrogate_def is_trail_surrogate_def)
  have b: \<open>extractJSON (units ''{"a":"}"}'') = Inr (units ''{"a":"}'')\<close>
    by (simp add: extractJSON_def trim_def indexOf_def match_fence_open_def match_fence_close_def
          is_space_def is_line_terminator_def Let_def)
  show ?thesis by (simp only: a b)
qed

text \<open>
  A line separator inside a string value is written as it is by \<^verbatim>\<open>JSON.stringify\<close>,
  and \<^verbatim>\<open>^\<close> holds after it: three backquotes that follow it in the string are
  deleted by the first replacement. The object is \<^verbatim>\<open>{a: "<U+2028>```"}\<close>.
\<close>

lemma extractJSON_line_separator:
  \<open>stringify (JObj [(units ''a'', JStr (0x2028 # backquotes))])
     = units ''{"a":"'' @ 0x2028 # backquotes @ units ''"}'' \<and>
   extractJSON (stringify (JObj [(units ''a'', JStr (0x2028 # backquotes))]))
     = Inr (units ''{"a":"'' @ 0x2028 # units ''"}'')\<close>
proof -
  have a: \<open>stringify (JObj [(units ''a'', JStr (0x2028 # backquotes))])
      = units ''{"a":"'' @ 0x2028 # backquotes @ units ''"}''\<close>
    by (simp add: quote_def quote_char_def is_lead_surrogate_def is_trail_surrogate_def)
  have b: \<open>extractJSON (units ''{"a":"'' @ 0x2028 # backquotes @ units ''"}'')
      = Inr (units ''{"a":"'' @ 0x2028 # units ''"}'')\<close>
    by (simp add: extractJSON_def trim_def indexOf_def match_fence_open_def match_fence_close_def
          json_tag_def is_space_def is_line_terminator_def Let_def)
  show ?thesis by (simp only: a b)
qed

text \<open>
  A brace in the prose: the scan starts at the first opening brace of the raw text.
\<close>

lemma extractJSON_brace_in_prose:
  \<open>extractJSON (units ''see {x}: '' @ stringify (JObj [(units ''a'', JNum 1)]))
     = Inr (units ''{x}'')\<close>
proof -
  have a: \<open>stringify (JObj [(units ''a'', JNum 1)]) = units ''{"a":1}''\<close>
    by (simp add: quote_def quote_char_def is_lead_surrogate_def is_trail_surrogate_def
          number_text_def decimal.simps digit_char_def)
  have b: \<open>extractJSON (units ''see {x}: '' @ units ''{"a":1}'') = Inr (units ''{x}'')\<close>
    by (simp add: extractJSON_def trim_def indexOf_def match_fence_open_def match_fence_close_def
          is_space_def is_line_terminator_def Let_def)
  show ?thesis by (simp only: a b)
qed

section \<open>Properties of the record normalizers\<close>

lemma normalizeCalDate_text_or_falsy:
  assumes "text_or_falsy v"
  shows "\<exists>w. normalizeCalDate v = Inr w"
proof (cases "truthy v")
  case False
  then show ?thesis by (simp add: normalizeCalDate_def)
next
  case True
  with assms obtain s where "v = Some (JStr s)" by (auto simp: text_or_falsy_def)
  with True show ?thesis by (simp add: normalizeCalDate_def)
qed

lemma normalize_field_result:
  assumes "text_or_falsy (data k)"
  shows "\<exists>r. normalize_field k data = Inr r \<and> normalizeCalDate (data k) = Inr (r k)
           \<and> (\<forall>k'. k' \<noteq> k \<longrightarrow> r k' = data k')"
proof -
  obtain w where w: "normalizeCalDate (data k) = Inr w"
    using normalizeCalDate_text_or_falsy [OF assms] by blast
  show ?thesis
  proof (cases "truthy (data k)")
    case True
    with w have "normalize_field k data = Inr (data(k := w))" by (simp add: normalize_field_def)
    with w show ?thesis by simp
  next
    case False
    then have "normalize_field k data = Inr data" "normalizeCalDate (data k) = Inr (data k)"
      by (simp_all add: normalize_field_def normalizeCalDate_def)
    then show ?thesis by simp
  qed
qed

lemma supported_text_or_falsy: "supported_value v \<Longrightarrow> text_or_falsy v"
  by (auto simp: supported_value_def text_or_falsy_def)

lemma normalizeCalDate_supported:
  assumes "supported_value v" "normalizeCalDate v = Inr w"
  shows "normalized_from v w"
proof (cases "truthy v")
  case False
  with assms(2) show ?thesis by (simp add: normalizeCalDate_def normalized_from_def)
next
  case True
  with assms(1) obtain sh where sh: "wf_shape sh" "v = Some (JStr (render sh))"
    by (auto simp: supported_value_def)
  with True assms(2) have "w = Some (JStr (normalizeCalDate_str (render sh)))"
    by (simp add: normalizeCalDate_def)
  moreover have "canonical (normalizeCalDate_str (render sh))" using sh(1) by (rule shape_canonical)
  ultimately show ?thesis using True assms(2) by (simp add: normalized_from_def)
qed

lemma normalizeTaskData_result:
  assumes "text_or_falsy (data ''dueDate'')" "text_or_falsy (data ''initialDate'')"
    "text_or_falsy (data ''InitialDate'')"
  shows "\<exists>r. normalizeTaskData data = Inr r \<and>
           normalizeCalDate (data ''dueDate'') = Inr (r ''dueDate'') \<and>
           (truthy (data ''InitialDate'') \<longrightarrow>
              normalizeCalDate (data ''InitialDate'') = Inr (r ''initialDate'') \<and>
              r ''InitialDate'' = None) \<and>
           (\<not> truthy (data ''InitialDate'') \<longrightarrow>
              normalizeCalDate (data ''initialDate'') = Inr (r ''initialDate'') \<and>
              r ''InitialDate'' = data ''InitialDate'') \<and>
           (\<forall>k. k \<noteq> ''dueDate'' \<and> k \<noteq> ''initialDate'' \<and> k \<noteq> ''InitialDate'' \<longrightarrow> r k = data k)"
proof -
  obtain d1 where d1: "normalize_field ''dueDate'' data = Inr d1"
    "normalizeCalDate (data ''dueDate'') = Inr (d1 ''dueDate'')"
    "\<forall>k'. k' \<noteq> ''dueDate'' \<longrightarrow> d1 k' = data k'"
    using normalize_field_result [of data "''dueDate''"] assms(1) by blast
  have "text_or_falsy (d1 ''initialDate'')" using assms(2) d1(3) by simp
  then obtain d2 where d2: "normalize_field ''initialDate'' d1 = Inr d2"
    "normalizeCalDate (d1 ''initialDate'') = Inr (d2 ''initialDate'')"
    "\<forall>k'. k' \<noteq> ''initialDate'' \<longrightarrow> d2 k' = d1 k'"
    using normalize_field_result [of d1 "''initialDate''"] by blast
  have same: "d2 ''InitialDate'' = data ''InitialDate''" "d2 ''dueDate'' = d1 ''dueDate''"
    "d1 ''initialDate'' = data ''initialDate''"
    using d1(3) d2(3) by simp_all
  have rest: "d2 k = data k" if "k \<noteq> ''dueDate''" "k \<noteq> ''initialDate''" for k
    using that d1(3) d2(3) by simp
  show ?thesis
  proof (cases "truthy (data ''InitialDate'')")
    case False
    then have "normalizeTaskData data = Inr d2"
      using d1(1) d2(1) same(1) by (simp add: normalizeTaskData_def)
    then show ?thesis using False d1(2) d2(2) same rest by simp
  next
    case True
    obtain w where w: "normalizeCalDate (data ''InitialDate'') = Inr w"
      using normalizeCalDate_text_or_falsy [OF assms(3)] by blast
    define r where "r = (d2(''initialDate'' := w))(''InitialDate'' := None)"
    have "normalizeTaskData data = Inr r"
      using True d1(1) d2(1) same(1) w by (simp add: normalizeTaskData_def r_def)
    moreover have "r ''dueDate'' = d1 ''dueDate''" "r ''initialDate'' = w" "r ''InitialDate'' = None"
      using same(2) by (simp_all add: r_def)
    moreover have "\<forall>k. k \<noteq> ''dueDate'' \<and> k \<noteq> ''initialDate'' \<and> k \<noteq> ''InitialDate'' \<longrightarrow> r k = data k"
      using rest by (simp add: r_def)
    ultimately show ?thesis using True d1(2) w by simp
  qed
qed

text \<open>
  C10, as amended. For every task record whose \<^verbatim>\<open>InitialDate\<close> is truthy (a non-empty
  string), the returned record has \<^verbatim>\<open>initialDate\<close> set to \<^verbatim>\<open>normalizeCalDate\<close> of
  that value and no \<^verbatim>\<open>InitialDate\<close> key; a falsy \<^verbatim>\<open>InitialDate\<close> stays where it is,
  and \<^verbatim>\<open>initialDate\<close> is then passed through \<^verbatim>\<open>normalizeCalDate\<close>; \<^verbatim>\<open>dueDate\<close> is
  passed through \<^verbatim>\<open>normalizeCalDate\<close>; all other fields are unchanged. The date
  fields are strings or falsy values.
\<close>

theorem normalizeTaskData_fields:
  assumes "text_or_falsy (data ''dueDate'')" "text_or_falsy (data ''initialDate'')"
    "text_or_falsy (data ''InitialDate'')"
  shows "\<exists>r. normalizeTaskData data = Inr r \<and>
           normalizeCalDate (data ''dueDate'') = Inr (r ''dueDate'') \<and>
           (truthy (data ''InitialDate'') \<longrightarrow>
              normalizeCalDate (data ''InitialDate'') = Inr (r ''initialDate'') \<and>
              r ''InitialDate'' = None) \<and>
           (\<not> truthy (data ''InitialDate'') \<longrightarrow>
              normalizeCalDate (data ''initialDate'') = Inr (r ''initialDate'') \<and>
              r ''InitialDate'' = data ''InitialDate'') \<and>
           (\<forall>k. k \<noteq> ''dueDate'' \<and> k \<noteq> ''initialDate'' \<and> k \<noteq> ''InitialDate'' \<longrightarrow> r k = data k)"
  using assms by (rule normalizeTaskData_result)

theorem normalizeTaskData_fields_witness:
  "text_or_falsy ([''summary'' \<mapsto> JStr ''Pay'', ''InitialDate'' \<mapsto> JStr ''2026-03-01''] ''dueDate'') \<and>
   text_or_falsy ([''summary'' \<mapsto> JStr ''Pay'', ''InitialDate'' \<mapsto> JStr ''2026-03-01''] ''initialDate'') \<and>
   text_or_falsy ([''summary'' \<mapsto> JStr ''Pay'', ''InitialDate'' \<mapsto> JStr ''2026-03-01''] ''InitialDate'') \<and>
   normalizeTaskData [''summary'' \<mapsto> JStr ''Pay'', ''InitialDate'' \<mapsto> JStr ''2026-03-01'']
     = Inr [''summary'' \<mapsto> JStr ''Pay'', ''initialDate'' \<mapsto> JStr ''20260301T000000'']"
proof -
  define data :: jsobject where
    "data = [''summary'' \<mapsto> JStr ''Pay'', ''InitialDate'' \<mapsto> JStr ''2026-03-01'']"
  have a: "text_or_falsy (data ''dueDate'')" "text_or_falsy (data ''initialDate'')"
    "text_or_falsy (data ''InitialDate'')"
    by (simp_all add: data_def text_or_falsy_def)
  have n: "normalizeCalDate (Some (JStr ''2026-03-01'')) = Inr (Some (JStr ''20260301T000000''))"
    by code_simp
  from normalizeTaskData_fields [OF a] obtain r where r: "normalizeTaskData data = Inr r"
    "normalizeCalDate (data ''dueDate'') = Inr (r ''dueDate'')"
    "truthy (data ''InitialDate'') \<longrightarrow>
       normalizeCalDate (data ''InitialDate'') = Inr (r ''initialDate'') \<and> r ''InitialDate'' = None"
    "\<forall>k. k \<noteq> ''dueDate'' \<and> k \<noteq> ''initialDate'' \<and> k \<noteq> ''InitialDate'' \<longrightarrow> r k = data k"
    by blast
  have "r k = [''summary'' \<mapsto> JStr ''Pay'', ''initialDate'' \<mapsto> JStr ''20260301T000000''] k" for k
  proof -
    consider "k = ''dueDate''" | "k = ''initialDate''" | "k = ''InitialDate''"
      | "k \<noteq> ''dueDate'' \<and> k \<noteq> ''initialDate'' \<and> k \<noteq> ''InitialDate''"
      by blast
    then show ?thesis
    proof cases
      case 1
      with r(2) show ?thesis by (simp add: data_def normalizeCalDate_def)
    next
      case 2
      with r(3) n show ?thesis by (simp add: data_def)
    next
      case 3
      with r(3) show ?thesis by (simp add: data_def)
    next
      case 4
      with r(4) show ?thesis by (simp add: data_def)
    qed
  qed
  then have "r = [''summary'' \<mapsto> JStr ''Pay'', ''initialDate'' \<mapsto> JStr ''20260301T000000'']"
    by (rule ext)
  with r(1) a show ?thesis by (simp add: data_def)
qed

text \<open>
  C10, as stated, fails: a record that carries the \<^verbatim>\<open>InitialDate\<close> key with the empty
  string is returned as it is, the key still there and no \<^verbatim>\<open>initialDate\<close> set.
\<close>

theorem normalizeTaskData_key_counterexample:
  "normalizeTaskData [''InitialDate'' \<mapsto> JStr ''''] = Inr [''InitialDate'' \<mapsto> JStr '''']"
  by (simp add: normalizeTaskData_def normalize_field_def)

lemma normalizeCalendarData_result:
  assumes "supported_value (data ''startDate'')" "supported_value (data ''endDate'')"
  shows "\<exists>r. normalizeCalendarData data = Inr r \<and>
           normalized_from (data ''startDate'') (r ''startDate'') \<and>
           normalized_from (data ''endDate'') (r ''endDate'') \<and>
           r ''forceAllDay'' = Some (JBool (truthy (data ''forceAllDay''))) \<and>
           (\<forall>k. k \<noteq> ''startDate'' \<and> k \<noteq> ''endDate'' \<and> k \<noteq> ''forceAllDay'' \<longrightarrow> r k = data k)"
proof -
  obtain d1 where d1: "normalize_field ''startDate'' data = Inr d1"
    "normalizeCalDate (data ''startDate'') = Inr (d1 ''startDate'')"
    "\<forall>k'. k' \<noteq> ''startDate'' \<longrightarrow> d1 k' = data k'"
    using normalize_field_result [of data "''startDate''"] supported_text_or_falsy [OF assms(1)]
    by blast
  have e: "d1 ''endDate'' = data ''endDate''" using d1(3) by simp
  then have "text_or_falsy (d1 ''endDate'')" using assms(2) supported_text_or_falsy by simp
  then obtain d2 where d2: "normalize_field ''endDate'' d1 = Inr d2"
    "normalizeCalDate (d1 ''endDate'') = Inr (d2 ''endDate'')"
    "\<forall>k'. k' \<noteq> ''endDate'' \<longrightarrow> d2 k' = d1 k'"
    using normalize_field_result [of d1 "''endDate''"] by blast
  define r where "r = d2(''forceAllDay'' \<mapsto> JBool (truthy (d2 ''forceAllDay'')))"
  have "normalizeCalendarData data = Inr r"
    using d1(1) d2(1) by (simp add: normalizeCalendarData_def r_def)
  moreover have "normalized_from (data ''startDate'') (r ''startDate'')"
    using normalizeCalDate_supported [OF assms(1) d1(2)] d2(3) by (simp add: r_def)
  moreover have "normalized_from (data ''endDate'') (r ''endDate'')"
    using normalizeCalDate_supported [OF assms(2)] d2(2) e by (simp add: r_def)
  moreover have "r ''forceAllDay'' = Some (JBool (truthy (data ''forceAllDay'')))"
    using d1(3) d2(3) by (simp add: r_def)
  moreover have "\<forall>k. k \<noteq> ''startDate'' \<and> k \<noteq> ''endDate'' \<and> k \<noteq> ''forceAllDay'' \<longrightarrow> r k = data k"
    using d1(3) d2(3) by (simp add: r_def)
  ultimately show ?thesis by blast
qed

lemma normalizeTaskData_canonical:
  assumes "supported_value (data ''dueDate'')" "supported_value (data ''initialDate'')"
    "supported_value (data ''InitialDate'')"
  shows "\<exists>r. normalizeTaskData data = Inr r \<and>
           normalized_from (data ''dueDate'') (r ''dueDate'') \<and>
           normalized_from
             (if truthy (data ''InitialDate'') then data ''InitialDate'' else data ''initialDate'')
             (r ''initialDate'') \<and>
           r ''forceAllDay'' = data ''forceAllDay''"
proof -
  from normalizeTaskData_result [of data] obtain r where r: "normalizeTaskData data = Inr r"
    "normalizeCalDate (data ''dueDate'') = Inr (r ''dueDate'')"
    "truthy (data ''InitialDate'') \<longrightarrow>
       normalizeCalDate (data ''InitialDate'') = Inr (r ''initialDate'')"
    "\<not> truthy (data ''InitialDate'') \<longrightarrow>
       normalizeCalDate (data ''initialDate'') = Inr (r ''initialDate'')"
    "\<forall>k. k \<noteq> ''dueDate'' \<and> k \<noteq> ''initialDate'' \<and> k \<noteq> ''InitialDate'' \<longrightarrow> r k = data k"
    using assms supported_text_or_falsy by blast
  have "normalized_from (data ''dueDate'') (r ''dueDate'')"
    using normalizeCalDate_supported [OF assms(1) r(2)] .
  moreover have "normalized_from
      (if truthy (data ''InitialDate'') then data ''InitialDate'' else data ''initialDate'')
      (r ''initialDate'')"
    using normalizeCalDate_supported [OF assms(3)] normalizeCalDate_supported [OF assms(2)] r(3,4)
    by (cases "truthy (data ''InitialDate'')") simp_all
  moreover have "r ''forceAllDay'' = data ''forceAllDay''" using r(5) by simp
  ultimately show ?thesis using r(1) by blast
qed

text \<open>
  C5, as amended. After \<^verbatim>\<open>normalizeCalendarData\<close> and \<^verbatim>\<open>normalizeTaskData\<close>, on
  records whose date fields on input (\<^verbatim>\<open>startDate\<close> and \<^verbatim>\<open>endDate\<close> of an event;
  \<^verbatim>\<open>dueDate\<close>, \<^verbatim>\<open>initialDate\<close> and the alternate \<^verbatim>\<open>InitialDate\<close> of a task) each
  hold a falsy value (absent, \<^verbatim>\<open>null\<close>, the empty string, \<^verbatim>\<open>false\<close>, zero) or a
  string of a supported shape, every date field of the result is \<^verbatim>\<open>normalizeCalDate\<close> of the input field
  it comes from (\<^verbatim>\<open>initialDate\<close> from a truthy \<^verbatim>\<open>InitialDate\<close>, and else from
  \<^verbatim>\<open>initialDate\<close>): the input value itself when that is falsy, and otherwise a
  string of the canonical form \<^verbatim>\<open>YYYYMMDDTHHMMSS\<close>. In an event record
  \<^verbatim>\<open>forceAllDay\<close> is present and boolean, the truth value of what the input held, and
  the other fields are unchanged; in a task record \<^verbatim>\<open>forceAllDay\<close> is left as the
  model gave it.
\<close>

theorem normalized_dates_canonical:
  "(supported_value (event ''startDate'') \<and> supported_value (event ''endDate'') \<longrightarrow>
      (\<exists>r. normalizeCalendarData event = Inr r \<and>
           normalized_from (event ''startDate'') (r ''startDate'') \<and>
           normalized_from (event ''endDate'') (r ''endDate'') \<and>
           r ''forceAllDay'' = Some (JBool (truthy (event ''forceAllDay''))) \<and>
           (\<forall>k. k \<noteq> ''startDate'' \<and> k \<noteq> ''endDate'' \<and> k \<noteq> ''forceAllDay''
              \<longrightarrow> r k = event k))) \<and>
   (supported_value (task ''dueDate'') \<and> supported_value (task ''initialDate'') \<and>
    supported_value (task ''InitialDate'') \<longrightarrow>
      (\<exists>r. normalizeTaskData task = Inr r \<and>
           normalized_from (task ''dueDate'') (r ''dueDate'') \<and>
           normalized_from
             (if truthy (task ''InitialDate'') then task ''InitialDate'' else task ''initialDate'')
             (r ''initialDate'') \<and>
           r ''forceAllDay'' = task ''forceAllDay''))"
  using normalizeCalendarData_result [of event] normalizeTaskData_canonical [of task] by blast

theorem normalized_dates_canonical_witness:
  "supported_value ([''startDate'' \<mapsto> JStr ''2026-03-10T15:00:00''] ''startDate'') \<and>
   supported_value ([''startDate'' \<mapsto> JStr ''2026-03-10T15:00:00''] ''endDate'') \<and>
   normalizeCalendarData [''startDate'' \<mapsto> JStr ''2026-03-10T15:00:00'']
     = Inr [''startDate'' \<mapsto> JStr ''20260310T150000'', ''forceAllDay'' \<mapsto> JBool False] \<and>
   (\<exists>r. normalizeCalendarData [''startDate'' \<mapsto> JStr ''2026-03-10T15:00:00''] = Inr r \<and>
        normalized_from (Some (JStr ''2026-03-10T15:00:00'')) (r ''startDate'') \<and>
        normalized_from None (r ''endDate'') \<and>
        r ''forceAllDay'' = Some (JBool False)) \<and>
   supported_value ([''InitialDate'' \<mapsto> JStr ''2026-03-10T15:00:00''] ''dueDate'') \<and>
   supported_value ([''InitialDate'' \<mapsto> JStr ''2026-03-10T15:00:00''] ''initialDate'') \<and>
   supported_value ([''InitialDate'' \<mapsto> JStr ''2026-03-10T15:00:00''] ''InitialDate'') \<and>
   (\<exists>r. normalizeTaskData [''InitialDate'' \<mapsto> JStr ''2026-03-10T15:00:00''] = Inr r \<and>
        normalized_from None (r ''dueDate'') \<and>
        normalized_from (Some (JStr ''2026-03-10T15:00:00'')) (r ''initialDate'') \<and>
        r ''forceAllDay'' = None)"
proof -
  define sh where "sh = DateTime (DateText ''2026'' ''03'' ''10'' True)
      (TimeText (HoursMinutesSeconds ''15'' ''00'' ''00'') True None NoZone)"
  have "wf_shape sh \<and> Some (JStr ''2026-03-10T15:00:00'') = Some (JStr (render sh))"
    by (simp add: sh_def digits_def is_digit_def)
  then have s: "supported_value (Some (JStr ''2026-03-10T15:00:00''))"
    unfolding supported_value_def by blast
  have n: "supported_value None" by (simp add: supported_value_def)
  have a: "supported_value ([''startDate'' \<mapsto> JStr ''2026-03-10T15:00:00''] ''startDate'')"
    "supported_value ([''startDate'' \<mapsto> JStr ''2026-03-10T15:00:00''] ''endDate'')"
    "supported_value ([''InitialDate'' \<mapsto> JStr ''2026-03-10T15:00:00''] ''dueDate'')"
    "supported_value ([''InitialDate'' \<mapsto> JStr ''2026-03-10T15:00:00''] ''initialDate'')"
    "supported_value ([''InitialDate'' \<mapsto> JStr ''2026-03-10T15:00:00''] ''InitialDate'')"
    using s n by simp_all
  have c: "normalizeCalDate (Some (JStr ''2026-03-10T15:00:00''))
      = Inr (Some (JStr ''20260310T150000''))"
    by code_simp
  have e: "normalizeCalendarData [''startDate'' \<mapsto> JStr ''2026-03-10T15:00:00'']
      = Inr [''startDate'' \<mapsto> JStr ''20260310T150000'', ''forceAllDay'' \<mapsto> JBool False]"
    using c by (simp add: normalizeCalendarData_def normalize_field_def)
  show ?thesis
    using a e normalized_dates_canonical [of "[''startDate'' \<mapsto> JStr ''2026-03-10T15:00:00'']"
        "[''InitialDate'' \<mapsto> JStr ''2026-03-10T15:00:00'']"]
    by simp
qed

text \<open>
  C5, as stated, fails. A date string outside the supported shapes is reshaped without
  being checked, and \<^verbatim>\<open>normalizeTaskData\<close> does not set \<^verbatim>\<open>forceAllDay\<close>.
\<close>

theorem normalized_dates_counterexample:
  "normalizeCalendarData [''startDate'' \<mapsto> JStr ''tomorrow'']
     = Inr [''startDate'' \<mapsto> JStr ''tomorrowT000000'', ''forceAllDay'' \<mapsto> JBool False] \<and>
   \<not> canonical ''tomorrowT000000'' \<and>
   normalizeTaskData [''dueDate'' \<mapsto> JStr ''20260301T120000'']
     = Inr [''dueDate'' \<mapsto> JStr ''20260301T120000''] \<and>
   [''dueDate'' \<mapsto> JStr ''20260301T120000''] ''forceAllDay'' = None"
proof -
  have a: "normalizeCalDate (Some (JStr ''tomorrow'')) = Inr (Some (JStr ''tomorrowT000000''))"
    by code_simp
  have b: "normalizeCalDate (Some (JStr ''20260301T120000'')) = Inr (Some (JStr ''20260301T120000''))"
    by code_simp
  have c: "\<not> canonical ''tomorrowT000000''" by (simp add: canonical_def is_digit_def)
  show ?thesis
    using a b c by (simp add: normalizeCalendarData_def normalizeTaskData_def normalize_field_def)
qed

section \<open>Properties of the model client\<close>

lemma callOllama_invalid:
  "\<not> isValidHostUrl parseURL host \<Longrightarrow>
     callOllama parseURL fetch host model prompt = (Inl (InvalidHost host), [])"
  by (simp add: callOllama_def)

lemma callOllama_requests:
  "snd (callOllama parseURL fetch host model prompt) \<noteq> [] \<Longrightarrow> isValidHostUrl parseURL host"
  by (rule ccontr) (simp add: callOllama_def)

lemma isValidHostUrl_iff:
  "isValidHostUrl parseURL str \<longleftrightarrow>
     (\<exists>u. parseURL str = Some u \<and> (protocol u = ''http:'' \<or> protocol u = ''https:''))"
  by (cases "parseURL str") (simp_all add: isValidHostUrl_def)

lemma standard_parser_scheme:
  assumes "standard_parser parseURL" "url_scheme str = sch"
  shows "isValidHostUrl parseURL str \<longleftrightarrow>
           parseURL str \<noteq> None \<and> (sch = Some ''http:'' \<or> sch = Some ''https:'')"
proof (cases "parseURL str")
  case None
  then show ?thesis by (simp add: isValidHostUrl_def)
next
  case (Some u)
  with assms have "sch = Some (protocol u)" by (auto simp: standard_parser_def)
  with Some show ?thesis by (auto simp: isValidHostUrl_def)
qed

lemma example_schemes:
  "url_scheme ''http://127.0.0.1:11434'' = Some ''http:''"
  "url_scheme ''https://example.com'' = Some ''https:''"
  "url_scheme ''ftp://x'' = Some ''ftp:''"
  "url_scheme ''file:///x'' = Some ''file:''"
  "url_scheme ''not a url'' = None"
  by code_simp+

text \<open>
  C7. The model client issues a network request only if the host string parses as a
  URL whose protocol is \<^verbatim>\<open>http:\<close> or \<^verbatim>\<open>https:\<close>; for any other string the call
  fails with the invalid-host error and no request has been made. With a parser that
  keeps to the URL standard, \<^verbatim>\<open>ftp://x\<close>, \<^verbatim>\<open>file:///x\<close> and a string that is not a URL
  are rejected, and \<^verbatim>\<open>http://127.0.0.1:11434\<close> and \<^verbatim>\<open>https://example.com\<close>, which
  such a parser accepts, pass validation.
\<close>

theorem callOllama_validates_host:
  "(snd (callOllama parseURL fetch host model prompt) \<noteq> [] \<longrightarrow>
      (\<exists>u. parseURL host = Some u \<and> (protocol u = ''http:'' \<or> protocol u = ''https:''))) \<and>
   (\<not> (\<exists>u. parseURL host = Some u \<and> (protocol u = ''http:'' \<or> protocol u = ''https:'')) \<longrightarrow>
      callOllama parseURL fetch host model prompt = (Inl (InvalidHost host), [])) \<and>
   (standard_parser parseURL \<longrightarrow>
      \<not> isValidHostUrl parseURL ''ftp://x'' \<and>
      \<not> isValidHostUrl parseURL ''file:///x'' \<and>
      \<not> isValidHostUrl parseURL ''not a url'' \<and>
      (parseURL ''http://127.0.0.1:11434'' \<noteq> None \<longrightarrow>
         isValidHostUrl parseURL ''http://127.0.0.1:11434'') \<and>
      (parseURL ''https://example.com'' \<noteq> None \<longrightarrow>
         isValidHostUrl parseURL ''https://example.com''))"
proof -
  have a: "snd (callOllama parseURL fetch host model prompt) \<noteq> [] \<longrightarrow>
      (\<exists>u. parseURL host = Some u \<and> (protocol u = ''http:'' \<or> protocol u = ''https:''))"
    using callOllama_requests [of parseURL fetch host model prompt]
    by (simp add: isValidHostUrl_iff)
  have b: "\<not> (\<exists>u. parseURL host = Some u \<and> (protocol u = ''http:'' \<or> protocol u = ''https:'')) \<longrightarrow>
      callOllama parseURL fetch host model prompt = (Inl (InvalidHost host), [])"
    using callOllama_invalid [of parseURL host fetch model prompt]
    by (simp add: isValidHostUrl_iff)
  have c: "\<not> isValidHostUrl parseURL ''ftp://x'' \<and>
      \<not> isValidHostUrl parseURL ''file:///x'' \<and>
      \<not> isValidHostUrl parseURL ''not a url'' \<and>
      (parseURL ''http://127.0.0.1:11434'' \<noteq> None \<longrightarrow>
         isValidHostUrl parseURL ''http://127.0.0.1:11434'') \<and>
      (parseURL ''https://example.com'' \<noteq> None \<longrightarrow>
         isValidHostUrl parseURL ''https://example.com'')"
    if s: "standard_parser parseURL"
    using standard_parser_scheme [OF s example_schemes(1)]
      standard_parser_scheme [OF s example_schemes(2)]
      standard_parser_scheme [OF s example_schemes(3)]
      standard_parser_scheme [OF s example_schemes(4)]
      standard_parser_scheme [OF s example_schemes(5)]
    by simp
  from a b c show ?thesis by blast
qed

theorem callOllama_validates_host_witness:
  "standard_parser scheme_parser \<and>
   scheme_parser ''http://127.0.0.1:11434'' = Some \<lparr>protocol = ''http:''\<rparr> \<and>
   isValidHostUrl scheme_parser ''http://127.0.0.1:11434'' \<and>
   snd (callOllama scheme_parser (\<lambda>r. Rejected True '''') ''http://127.0.0.1:11434'' ''m'' ''p'') \<noteq> [] \<and>
   scheme_parser ''ftp://x'' = Some \<lparr>protocol = ''ftp:''\<rparr> \<and>
   callOllama scheme_parser (\<lambda>r. Rejected True '''') ''ftp://x'' ''m'' ''p''
     = (Inl (InvalidHost ''ftp://x''), [])"
proof -
  have s: "standard_parser scheme_parser"
    by (auto simp: standard_parser_def scheme_parser_def)
  have p: "scheme_parser ''http://127.0.0.1:11434'' = Some \<lparr>protocol = ''http:''\<rparr>"
    "scheme_parser ''ftp://x'' = Some \<lparr>protocol = ''ftp:''\<rparr>"
    by (simp_all add: scheme_parser_def example_schemes)
  have r: "snd (callOllama scheme_parser (\<lambda>r. Rejected True '''') ''http://127.0.0.1:11434'' ''m'' ''p'') \<noteq> []"
    using p(1) by (simp add: callOllama_def isValidHostUrl_def Let_def)
  show ?thesis
    using s p r
      callOllama_validates_host [of scheme_parser "\<lambda>r. Rejected True ''''" "''http://127.0.0.1:11434''" "''m''" "''p''"]
      callOllama_validates_host [of scheme_parser "\<lambda>r. Rejected True ''''" "''ftp://x''" "''m''" "''p''"]
    by simp
qed

section \<open>Properties of the calendar helpers\<close>

subsection \<open>Reading and writing numbers\<close>

lemma decimal_small: "n < 10 \<Longrightarrow> decimal n = [digit_char n]"
  by (subst decimal.simps) simp

lemma decimal_large: "\<not> n < 10 \<Longrightarrow> decimal n = decimal (n div 10) @ [digit_char (n mod 10)]"
  by (subst decimal.simps) simp

lemma digit_char_decimal:
  assumes "k < 10"
  shows "digit_value (digit_char k) = k \<and> is_digit (digit_char k)"
proof -
  from assms have "k = 0 \<or> k = 1 \<or> k = 2 \<or> k = 3 \<or> k = 4 \<or> k = 5 \<or> k = 6 \<or> k = 7 \<or> k = 8 \<or> k = 9"
    by arith
  then show ?thesis
    by (elim disjE) (simp_all add: digit_char_def digit_value_def is_digit_def)
qed

lemma number_of_snoc: "number_of (a @ [c]) = 10 * number_of a + digit_value c"
  by (simp add: number_of_def)

lemma number_of_decimal: "number_of (decimal n) = n"
proof (induction n rule: decimal.induct)
  case (1 n)
  show ?case
  proof (cases "n < 10")
    case True
    then show ?thesis by (simp add: decimal_small number_of_def digit_char_decimal)
  next
    case False
    then have "number_of (decimal n) = 10 * (n div 10) + n mod 10"
      using 1 by (simp add: decimal_large number_of_snoc digit_char_decimal)
    then show ?thesis by simp
  qed
qed

lemma number_of_zeros: "number_of (replicate k CHR ''0'' @ s) = number_of s"
  by (induction k) (simp_all add: number_of_def digit_value_def)

lemma decimal_digits: "list_all is_digit (decimal n)"
proof (induction n rule: decimal.induct)
  case (1 n)
  show ?case
  proof (cases "n < 10")
    case True
    then show ?thesis by (simp add: decimal_small digit_char_decimal)
  next
    case False
    with 1 show ?thesis by (simp add: decimal_large digit_char_decimal)
  qed
qed

lemma length_decimal: "n < 10 ^ w \<Longrightarrow> 0 < w \<Longrightarrow> length (decimal n) \<le> w"
proof (induction n arbitrary: w rule: decimal.induct)
  case (1 n)
  show ?case
  proof (cases "n < 10")
    case True
    with 1(3) show ?thesis by (simp add: decimal_small)
  next
    case False
    obtain v where v: "w = Suc v" using 1(3) by (cases w) auto
    with False 1(2) have "0 < v" by (cases v) auto
    moreover have "n div 10 < 10 ^ v" using 1(2) v by (simp add: less_mult_imp_div_less mult.commute)
    ultimately have "length (decimal (n div 10)) \<le> v" using 1(1) [OF False] by simp
    with False v show ?thesis by (simp add: decimal_large)
  qed
qed

lemma pad_number_props:
  assumes "n < 10 ^ w" "0 < w"
  shows "length (pad_number w n) = w" "list_all is_digit (pad_number w n)"
    "number_of (pad_number w n) = n"
proof -
  have "length (decimal n) \<le> w" using assms by (rule length_decimal)
  then show "length (pad_number w n) = w" by (simp add: pad_number_def)
  have "is_digit CHR ''0''" by (simp add: is_digit_def)
  then show "list_all is_digit (pad_number w n)"
    using decimal_digits [of n] by (auto simp: pad_number_def list_all_iff)
  show "number_of (pad_number w n) = n"
    by (simp add: pad_number_def number_of_zeros number_of_decimal)
qed

lemma parse_stamp_fields:
  assumes "length a = 4" "length b = 2" "length c = 2" "length d = 2" "length e = 2"
    "length f = 2"
  shows "parse_stamp (a @ b @ c @ ''T'' @ d @ e @ f) =
     \<lparr>year = number_of a, month = number_of b, day = number_of c, hour = number_of d,
      minute = number_of e, second = number_of f\<rparr>"
  using assms by (simp add: parse_stamp_def)

lemma canonical_fields:
  assumes "digits 4 a" "digits 2 b" "digits 2 c" "digits 2 d" "digits 2 e" "digits 2 f"
  shows "canonical (a @ b @ c @ ''T'' @ d @ e @ f)"
  using assms by (simp add: canonical_def digits_def nth_append)

lemma days_in_month_le: "days_in_month y m \<le> 31"
  by (simp add: days_in_month_def)

lemma valid_stamp_bounds:
  assumes "valid_stamp t"
  shows "month t < 10 ^ 2" "day t < 10 ^ 2" "hour t < 10 ^ 2" "minute t < 10 ^ 2" "second t < 10 ^ 2"
  using assms days_in_month_le [of "year t" "month t"] by (auto simp: valid_stamp_def)

lemma parse_render:
  assumes "valid_stamp t" "year t < 10000"
  shows "parse_stamp (render_stamp t) = t" "canonical (render_stamp t)"
proof -
  have y: "year t < 10 ^ 4" using assms(2) by simp
  note b = valid_stamp_bounds [OF assms(1)]
  have l: "length (pad_number 4 (year t)) = 4" "length (pad_number 2 (month t)) = 2"
    "length (pad_number 2 (day t)) = 2" "length (pad_number 2 (hour t)) = 2"
    "length (pad_number 2 (minute t)) = 2" "length (pad_number 2 (second t)) = 2"
    using y b by (simp_all add: pad_number_props)
  have n: "number_of (pad_number 4 (year t)) = year t" "number_of (pad_number 2 (month t)) = month t"
    "number_of (pad_number 2 (day t)) = day t" "number_of (pad_number 2 (hour t)) = hour t"
    "number_of (pad_number 2 (minute t)) = minute t" "number_of (pad_number 2 (second t)) = second t"
    using y b by (simp_all add: pad_number_props)
  show "parse_stamp (render_stamp t) = t"
    unfolding render_stamp_def by (simp only: parse_stamp_fields [OF l] n) simp
  have d: "digits 4 (pad_number 4 (year t))" "digits 2 (pad_number 2 (month t))"
    "digits 2 (pad_number 2 (day t))" "digits 2 (pad_number 2 (hour t))"
    "digits 2 (pad_number 2 (minute t))" "digits 2 (pad_number 2 (second t))"
    using y b by (simp_all add: digits_def pad_number_props)
  show "canonical (render_stamp t)"
    unfolding render_stamp_def using d by (rule canonical_fields)
qed

subsection \<open>Year advancement\<close>

lemma advance_year_reaches: "y \<le> refYear \<Longrightarrow> advance_year y refYear = refYear"
proof (induction y refYear rule: advance_year.induct)
  case (1 y refYear)
  show ?case
  proof (cases "y < refYear")
    case True
    then have "advance_year (y + 1) refYear = refYear" using 1 by simp
    with True show ?thesis by (subst advance_year.simps) simp
  next
    case False
    with 1(2) show ?thesis by (subst advance_year.simps) simp
  qed
qed

lemma advancePastYear_before:
  assumes "canonical d" "number_of (take 4 d) < Y" "Y < 10000"
  shows "advancePastYear d Y = pad_number 4 Y @ drop 4 d"
    "parse_stamp (advancePastYear d Y) = (parse_stamp d)\<lparr>year := Y\<rparr>"
    "canonical (advancePastYear d Y)"
proof -
  have Y: "Y < 10 ^ 4" using assms(3) by simp
  show a: "advancePastYear d Y = pad_number 4 Y @ drop 4 d"
    using assms(2) by (simp add: advancePastYear_def advance_year_reaches)
  have l: "length (pad_number 4 Y) = 4" using Y by (simp add: pad_number_props)
  have n: "number_of (pad_number 4 Y) = Y" using Y by (simp add: pad_number_props)
  show "parse_stamp (advancePastYear d Y) = (parse_stamp d)\<lparr>year := Y\<rparr>"
    using l n by (simp add: a parse_stamp_def)
  have p: "list_all is_digit (pad_number 4 Y)" using Y by (simp add: pad_number_props)
  have "take 4 (drop 4 d) = drop 4 (take 8 d)" by (simp add: drop_take)
  then have "set (take 4 (drop 4 d)) \<subseteq> set (take 8 d)" by (simp add: set_drop_subset)
  then have q: "list_all is_digit (take 4 (drop 4 d))"
    using assms(1) by (auto simp: canonical_def list_all_iff)
  have len: "length d = 15" and T: "d ! 8 = CHR ''T''" and r: "list_all is_digit (drop 9 d)"
    using assms(1) by (simp_all add: canonical_def)
  have "length (pad_number 4 Y @ drop 4 d) = 15" using l len by simp
  moreover have "take 8 (pad_number 4 Y @ drop 4 d) = pad_number 4 Y @ take 4 (drop 4 d)"
    using l by simp
  moreover have "(pad_number 4 Y @ drop 4 d) ! 8 = d ! 8" using l len by (simp add: nth_append)
  moreover have "drop 9 (pad_number 4 Y @ drop 4 d) = drop 9 d" using l by simp
  ultimately show "canonical (advancePastYear d Y)"
    using p q T r by (simp add: a canonical_def)
qed

text \<open>
  C3. Year advancement: for every normalized date and reference year \<open>Y\<close> (of four
  digits), if the year of the date is less than \<open>Y\<close> then the year of the corrected
  date is \<open>Y\<close>, the smallest year that is at least \<open>Y\<close>, and month, day and time are
  unchanged; every date on or after a reference date in year \<open>Y\<close> is returned unchanged.
\<close>

theorem advancePastYear_policy:
  "(canonical d \<and> year (parse_stamp d) < Y \<and> Y < 10000 \<longrightarrow>
      year (parse_stamp (advancePastYear d Y)) = Y \<and>
      (\<forall>y. Y \<le> y \<longrightarrow> year (parse_stamp (advancePastYear d Y)) \<le> y) \<and>
      month (parse_stamp (advancePastYear d Y)) = month (parse_stamp d) \<and>
      day (parse_stamp (advancePastYear d Y)) = day (parse_stamp d) \<and>
      drop 4 (advancePastYear d Y) = drop 4 d \<and>
      canonical (advancePastYear d Y)) \<and>
   (year r = Y \<and> on_or_after (parse_stamp d) r \<longrightarrow> advancePastYear d Y = d)"
proof -
  have a: "year (parse_stamp (advancePastYear d Y)) = Y \<and>
      (\<forall>y. Y \<le> y \<longrightarrow> year (parse_stamp (advancePastYear d Y)) \<le> y) \<and>
      month (parse_stamp (advancePastYear d Y)) = month (parse_stamp d) \<and>
      day (parse_stamp (advancePastYear d Y)) = day (parse_stamp d) \<and>
      drop 4 (advancePastYear d Y) = drop 4 d \<and>
      canonical (advancePastYear d Y)"
    if h: "canonical d" "year (parse_stamp d) < Y" "Y < 10000"
  proof -
    have y: "number_of (take 4 d) < Y" using h(2) by (simp add: parse_stamp_def)
    note b = advancePastYear_before [OF h(1) y h(3)]
    have "Y < 10 ^ 4" using h(3) by simp
    then have "length (pad_number 4 Y) = 4" by (simp add: pad_number_props)
    then have "drop 4 (advancePastYear d Y) = drop 4 d" by (simp add: b(1))
    then show ?thesis using b(2,3) by simp
  qed
  have "advancePastYear d Y = d" if "year r = Y" "on_or_after (parse_stamp d) r"
  proof -
    from that have "\<not> number_of (take 4 d) < Y"
      by (auto simp: on_or_after_def parse_stamp_def)
    then show ?thesis by (simp add: advancePastYear_def)
  qed
  with a show ?thesis by blast
qed

theorem advancePastYear_policy_witness:
  "canonical ''20240310T150000'' \<and> year (parse_stamp ''20240310T150000'') < 2026 \<and>
   (2026 :: nat) < 10000 \<and>
   advancePastYear ''20240310T150000'' 2026 = ''20260310T150000'' \<and>
   year (parse_stamp (advancePastYear ''20240310T150000'' 2026)) = 2026 \<and>
   on_or_after (parse_stamp ''20260310T150000'')
     \<lparr>year = 2026, month = 2, day = 20, hour = 0, minute = 0, second = 0\<rparr> \<and>
   advancePastYear ''20260310T150000'' 2026 = ''20260310T150000''"
proof -
  have c: "canonical ''20240310T150000''" by (simp add: canonical_def is_digit_def)
  have p: "parse_stamp ''20240310T150000''
      = \<lparr>year = 2024, month = 3, day = 10, hour = 15, minute = 0, second = 0\<rparr>"
    "parse_stamp ''20260310T150000''
      = \<lparr>year = 2026, month = 3, day = 10, hour = 15, minute = 0, second = 0\<rparr>"
    by (simp_all add: parse_stamp_def number_of_def digit_value_def)
  have y: "year (parse_stamp ''20240310T150000'') < 2026" "(2026 :: nat) < 10000"
    by (simp_all add: p)
  have o: "on_or_after (parse_stamp ''20260310T150000'')
      \<lparr>year = 2026, month = 2, day = 20, hour = 0, minute = 0, second = 0\<rparr>"
    by (simp add: p on_or_after_def)
  have e: "advancePastYear ''20240310T150000'' 2026 = ''20260310T150000''"
    using y(1)
    by (simp add: advancePastYear_def p parse_stamp_def advance_year_reaches pad_number_def
          decimal_small decimal_large digit_char_def)
  show ?thesis
    using c y o e
      advancePastYear_policy [of "''20240310T150000''" 2026
        "\<lparr>year = 2026, month = 2, day = 20, hour = 0, minute = 0, second = 0\<rparr>"]
      advancePastYear_policy [of "''20260310T150000''" 2026
        "\<lparr>year = 2026, month = 2, day = 20, hour = 0, minute = 0, second = 0\<rparr>"]
    by simp
qed

text \<open>
  The reference year is read from the last four characters of the current date text.
  They are the year when the text ends with the year, as the date of the integration
  tests does; when a time of day comes last, they are the end of the time.
\<close>

lemma refYear_of_examples:
  "refYear_of ''02/20/2026'' = Some 2026"
  "refYear_of ''02/20/2026, 14:30:00'' = Some 0"
  by (simp_all add: refYear_of_def parseInt10_def is_space_def is_line_terminator_def
        is_digit_def number_of_def
        digit_value_def)

subsection \<open>One day later\<close>

lemma days_in_month_ge: "1 \<le> days_in_month y m"
  by (simp add: days_in_month_def)

lemma valid_next_day: "valid_stamp t \<Longrightarrow> valid_stamp (next_day t)"
  using days_in_month_ge [of "year t" "month t + 1"] days_in_month_ge [of "year t + 1" 1]
  by (auto simp: valid_stamp_def next_day_def)

lemma days_before_month_Suc:
  "1 \<le> m \<Longrightarrow> days_before_month y (Suc m) = days_before_month y m + days_in_month y m"
  by (simp add: days_before_month_def)

lemma days_before_month_first: "days_before_month y (Suc 0) = 0"
  by (simp add: days_before_month_def)

lemma days_before_december:
  "days_before_month y 12 + 31 = (if leap_year y then 366 else 365)"
proof -
  have "[1..<12] = [1, 2, 3, 4, 5, 6, 7, 8, 9, 10, 11 :: nat]" by code_simp
  then show ?thesis by (simp add: days_before_month_def days_in_month_def)
qed

lemma day_number_next:
  assumes "valid_stamp t"
  shows "day_number (next_day t) = day_number t + 1"
proof -
  have b: "day t \<le> days_in_month (year t) (month t)" "month t \<le> 12"
    using assms by (simp_all add: valid_stamp_def)
  have "day t < days_in_month (year t) (month t)
      \<or> (day t = days_in_month (year t) (month t) \<and> month t < 12)
      \<or> (day t = days_in_month (year t) (month t) \<and> month t = 12)"
    using b by linarith
  then consider "day t < days_in_month (year t) (month t)"
    | "day t = days_in_month (year t) (month t)" "month t < 12"
    | "day t = days_in_month (year t) (month t)" "month t = 12"
    by blast
  then show ?thesis
  proof cases
    case 1
    then show ?thesis by (simp add: next_day_def day_number_def)
  next
    case 2
    moreover have "1 \<le> month t" using assms by (simp add: valid_stamp_def)
    ultimately show ?thesis
      by (simp add: next_day_def day_number_def days_before_month_Suc)
  next
    case 3
    then have d: "day t = 31" by (simp add: days_in_month_def)
    have "day_number (next_day t) = days_before_year (Suc (year t)) + 1"
      using 3 by (simp add: next_day_def day_number_def days_before_month_first)
    also have "\<dots> = days_before_year (year t) + (days_before_month (year t) 12 + 31) + 1"
      by (simp only: days_before_december days_before_year.simps)
    finally show ?thesis using 3 d by (simp add: day_number_def)
  qed
qed

lemma next_day_time:
  "hour (next_day t) = hour t" "minute (next_day t) = minute t" "second (next_day t) = second t"
  "year (next_day t) \<le> year t + 1"
  by (simp_all add: next_day_def)

lemma next_day_hour: "next_day (t\<lparr>hour := h\<rparr>) = (next_day t)\<lparr>hour := h\<rparr>"
  by (simp add: next_day_def)

lemma seconds_next_day:
  "valid_stamp t \<Longrightarrow> seconds_of (next_day t) = seconds_of t + 24 * 60 * 60"
  by (simp add: seconds_of_def day_number_next next_day_time)

lemma add_hours_within:
  "hour t + k \<le> 23 \<Longrightarrow> (add_hour ^^ k) t = t\<lparr>hour := hour t + k\<rparr>"
proof (induction k)
  case 0
  show ?case by simp
next
  case (Suc k)
  then have ih: "(add_hour ^^ k) t = t\<lparr>hour := hour t + k\<rparr>" by simp
  have "(add_hour ^^ Suc k) t = add_hour ((add_hour ^^ k) t)" by simp
  also have "\<dots> = add_hour (t\<lparr>hour := hour t + k\<rparr>)" by (simp only: ih)
  also have "\<dots> = t\<lparr>hour := hour t + Suc k\<rparr>" using Suc.prems by (simp add: add_hour_def)
  finally show ?case .
qed

lemma add_24_hours:
  assumes "hour t < 24"
  shows "(add_hour ^^ 24) t = next_day t"
proof -
  define h where "h = hour t"
  have e: "(24 :: nat) = h + (1 + (23 - h))" using assms by (simp add: h_def)
  have "(add_hour ^^ 24) t = (add_hour ^^ (h + (1 + (23 - h)))) t"
    using arg_cong [OF e, of "\<lambda>n. (add_hour ^^ n) t"] .
  also have "\<dots> = (add_hour ^^ h) ((add_hour ^^ 1) ((add_hour ^^ (23 - h)) t))"
    by (simp only: funpow_add comp_apply)
  also have "(add_hour ^^ 1) ((add_hour ^^ (23 - h)) t) = add_hour ((add_hour ^^ (23 - h)) t)"
    by simp
  also have "(add_hour ^^ (23 - h)) t = t\<lparr>hour := 23\<rparr>"
    using assms by (subst add_hours_within) (simp_all add: h_def)
  also have "add_hour (t\<lparr>hour := 23\<rparr>) = (next_day t)\<lparr>hour := 0\<rparr>"
    by (simp add: add_hour_def next_day_hour)
  also have "(add_hour ^^ h) ((next_day t)\<lparr>hour := 0\<rparr>) = (next_day t)\<lparr>hour := h\<rparr>"
    using assms by (subst add_hours_within) (simp_all add: h_def)
  also have "\<dots> = next_day t"
  proof -
    have "hour (next_day t) = h" by (simp add: h_def next_day_time)
    then have "(next_day t)\<lparr>hour := h\<rparr> = (next_day t)\<lparr>hour := hour (next_day t)\<rparr>"
      by (simp only:)
    then show ?thesis by simp
  qed
  finally show ?thesis .
qed

lemma addHoursToCalDate_day:
  assumes "valid_stamp (parse_stamp e)" "year (parse_stamp e) < 9999"
  shows "addHoursToCalDate e 24 = render_stamp (next_day (parse_stamp e))"
    "canonical (addHoursToCalDate e 24)"
    "seconds_of (parse_stamp (addHoursToCalDate e 24)) = seconds_of (parse_stamp e) + 24 * 60 * 60"
proof -
  have h: "hour (parse_stamp e) < 24" using assms(1) by (simp add: valid_stamp_def)
  show a: "addHoursToCalDate e 24 = render_stamp (next_day (parse_stamp e))"
    by (simp add: addHoursToCalDate_def add_24_hours [OF h])
  have v: "valid_stamp (next_day (parse_stamp e))" using assms(1) by (rule valid_next_day)
  have y: "year (next_day (parse_stamp e)) < 10000"
    using assms(2) next_day_time(4) [of "parse_stamp e"] by simp
  show "canonical (addHoursToCalDate e 24)" using parse_render(2) [OF v y] by (simp add: a)
  show "seconds_of (parse_stamp (addHoursToCalDate e 24))
      = seconds_of (parse_stamp e) + 24 * 60 * 60"
    using parse_render(1) [OF v y] seconds_next_day [OF assms(1)] by (simp add: a)
qed

text \<open>
  C4. In the calendar post-processing, for every record with \<^verbatim>\<open>forceAllDay\<close> true and
  an \<^verbatim>\<open>endDate\<close> (a valid canonical timestamp) different from \<^verbatim>\<open>startDate\<close>, the
  \<^verbatim>\<open>endDate\<close> after the step is exactly 24 hours later than before it; for every
  record with \<^verbatim>\<open>endDate\<close> equal to \<^verbatim>\<open>startDate\<close> the record is left unchanged.
\<close>

theorem allDayAdjust_one_day:
  "(truthy (parsed ''forceAllDay'') \<and> parsed ''endDate'' = Some (JStr e) \<and>
    parsed ''endDate'' \<noteq> parsed ''startDate'' \<and>
    canonical e \<and> valid_stamp (parse_stamp e) \<and> year (parse_stamp e) < 9999 \<longrightarrow>
      (\<exists>e'. allDayAdjust parsed = Inr (parsed(''endDate'' \<mapsto> JStr e')) \<and> canonical e' \<and>
            seconds_of (parse_stamp e') = seconds_of (parse_stamp e) + 24 * 60 * 60)) \<and>
   (parsed ''endDate'' = parsed ''startDate'' \<longrightarrow> allDayAdjust parsed = Inr parsed)"
proof -
  have a: "\<exists>e'. allDayAdjust parsed = Inr (parsed(''endDate'' \<mapsto> JStr e')) \<and> canonical e' \<and>
            seconds_of (parse_stamp e') = seconds_of (parse_stamp e) + 24 * 60 * 60"
    if h: "truthy (parsed ''forceAllDay'')" "parsed ''endDate'' = Some (JStr e)"
      "parsed ''endDate'' \<noteq> parsed ''startDate''" "canonical e"
      "valid_stamp (parse_stamp e)" "year (parse_stamp e) < 9999"
  proof -
    have "e \<noteq> []" using h(4) by (auto simp: canonical_def)
    then have "truthy (parsed ''endDate'')" using h(2) by simp
    then have "allDayAdjust parsed = Inr (parsed(''endDate'' \<mapsto> JStr (addHoursToCalDate e 24)))"
      using h(1,2,3) by (simp add: allDayAdjust_def)
    then show ?thesis using addHoursToCalDate_day(2,3) [OF h(5,6)] by blast
  qed
  have "allDayAdjust parsed = Inr parsed" if "parsed ''endDate'' = parsed ''startDate''"
    using that by (simp add: allDayAdjust_def)
  with a show ?thesis by blast
qed

theorem allDayAdjust_one_day_witness:
  "truthy ([''forceAllDay'' \<mapsto> JBool True, ''startDate'' \<mapsto> JStr ''20260227T000000'',
            ''endDate'' \<mapsto> JStr ''20260228T000000''] ''forceAllDay'') \<and>
   canonical ''20260228T000000'' \<and> valid_stamp (parse_stamp ''20260228T000000'') \<and>
   year (parse_stamp ''20260228T000000'') < 9999 \<and>
   allDayAdjust [''forceAllDay'' \<mapsto> JBool True, ''startDate'' \<mapsto> JStr ''20260227T000000'',
                 ''endDate'' \<mapsto> JStr ''20260228T000000'']
     = Inr [''forceAllDay'' \<mapsto> JBool True, ''startDate'' \<mapsto> JStr ''20260227T000000'',
            ''endDate'' \<mapsto> JStr ''20260301T000000''] \<and>
   (\<exists>e'. allDayAdjust [''forceAllDay'' \<mapsto> JBool True, ''startDate'' \<mapsto> JStr ''20260227T000000'',
                       ''endDate'' \<mapsto> JStr ''20260228T000000'']
           = Inr ([''forceAllDay'' \<mapsto> JBool True, ''startDate'' \<mapsto> JStr ''20260227T000000'',
                   ''endDate'' \<mapsto> JStr ''20260228T000000''](''endDate'' \<mapsto> JStr e')) \<and>
         canonical e' \<and>
         seconds_of (parse_stamp e') = seconds_of (parse_stamp ''20260228T000000'') + 24 * 60 * 60)"
proof -
  have p: "parse_stamp ''20260228T000000''
      = \<lparr>year = 2026, month = 2, day = 28, hour = 0, minute = 0, second = 0\<rparr>"
    by (simp add: parse_stamp_def number_of_def digit_value_def)
  have c: "canonical ''20260228T000000''" by (simp add: canonical_def is_digit_def)
  have v: "valid_stamp (parse_stamp ''20260228T000000'')"
    by (simp add: p valid_stamp_def days_in_month_def leap_year_def)
  have y: "year (parse_stamp ''20260228T000000'') < 9999" by (simp add: p)
  have "addHoursToCalDate ''20260228T000000'' 24 = ''20260301T000000''"
    by (simp add: addHoursToCalDate_day(1) [OF v y])
       (simp add: p next_day_def days_in_month_def leap_year_def render_stamp_def pad_number_def
          decimal_small decimal_large digit_char_def)
  then have e: "allDayAdjust [''forceAllDay'' \<mapsto> JBool True, ''startDate'' \<mapsto> JStr ''20260227T000000'',
                 ''endDate'' \<mapsto> JStr ''20260228T000000'']
     = Inr [''forceAllDay'' \<mapsto> JBool True, ''startDate'' \<mapsto> JStr ''20260227T000000'',
            ''endDate'' \<mapsto> JStr ''20260301T000000'']"
    by (simp add: allDayAdjust_def)
  show ?thesis
    using c v y e
      allDayAdjust_one_day [of "[''forceAllDay'' \<mapsto> JBool True,
          ''startDate'' \<mapsto> JStr ''20260227T000000'', ''endDate'' \<mapsto> JStr ''20260228T000000'']"
        "''20260228T000000''"]
    by simp
qed

end
